theory Spec2Isabelle
  imports Complex_Main "HOL-Library.Mapping"
begin

section \<open>Octree nodes\<close>

text \<open>
  The scheduler and the cache see a node through the interface \<^verbatim>\<open>IPointCloudTreeNode\<close>:
  \<^verbatim>\<open>id\<close>, \<^verbatim>\<open>numPoints\<close>, \<^verbatim>\<open>level\<close>, \<^verbatim>\<open>boundingBox\<close>, \<^verbatim>\<open>boundingSphere\<close> (centre and radius),
  \<^verbatim>\<open>children\<close>, and, on geometry nodes, \<^verbatim>\<open>loaded\<close> and \<^verbatim>\<open>failed\<close>. A tree node wraps a
  geometry node and answers these fields from it, so both variants are one constructor
  with a tag. Point counts are integers; boxes \<open>'b\<close>, vectors \<open>'v\<close> and floating-point
  numbers \<open>'r\<close> are kept abstract.
\<close>

datatype nodeKind = GeometryNode | TreeNode

datatype ('b, 'v, 'r) node =
  Node (node_id: nat) (numPoints: int) (level: int) (kind: nodeKind)
       (loaded: bool) (failed: bool) (boundingBox: 'b)
       (center: 'v) (radius: 'r)
       (children: "('b, 'v, 'r) node option list")

text \<open>
  Modelled from the spec: the type predicates of \<^verbatim>\<open>type-predicates.ts\<close> are not in the
  sources; they tell the two node variants apart.
\<close>

definition isGeometryNode :: "('b, 'v, 'r) node \<Rightarrow> bool" where
  "isGeometryNode n = (kind n = GeometryNode)"

definition isTreeNode :: "('b, 'v, 'r) node \<Rightarrow> bool" where
  "isTreeNode n = (kind n = TreeNode)"

lemma child_size: "Some c \<in> set (children n) \<Longrightarrow> size c < size n"
proof (cases n)
  case (Node i np lv k ld fl bb ce ra cs)
  assume "Some c \<in> set (children n)"
  with Node have "Some c \<in> set cs" by simp
  then have "size_option size (Some c) \<le> size_list (size_option size) cs"
    by (rule size_list_estimation') simp
  with Node show ?thesis by simp
qed

text \<open>
  Modelled from the spec: \<^verbatim>\<open>Node.traverse(visit)\<close> is not in the sources; it "depth-first
  visits all descendants". \<open>descendants n\<close> is the sequence of nodes the callback sees.
\<close>

function descendants :: "('b, 'v, 'r) node \<Rightarrow> ('b, 'v, 'r) node list" where
  "descendants n =
     concat (map (\<lambda>c. case c of None \<Rightarrow> [] | Some d \<Rightarrow> d # descendants d) (children n))"
  by pat_completeness auto
termination
  by (relation "measure size") (auto simp: child_size)

declare descendants.simps [simp del]

section \<open>The node cache (class LRU)\<close>

text \<open>
  \<^verbatim>\<open>LRUItem\<close> objects are linked by references in both directions, so they live in an
  explicit store: \<open>heap\<close> maps an address to the object's fields, \<open>fresh\<close> is the next
  unused address, and \<^verbatim>\<open>null\<close> is \<open>None\<close>. The private \<^verbatim>\<open>Map<number, LRUItem>\<close> is a
  mapping from node ids to addresses.
\<close>

datatype error = TypeError

type_synonym addr = nat

record ('b, 'v, 'r) LRUItem =
  node :: "('b, 'v, 'r) node"
  next_item :: "addr option"
  previous_item :: "addr option"

record ('b, 'v, 'r) LRU =
  first_item :: "addr option"
  last_item :: "addr option"
  lru_numPoints :: int
  items :: "(nat, addr) mapping"
  pointBudget :: int
  heap :: "addr \<Rightarrow> ('b, 'v, 'r) LRUItem"
  fresh :: addr

text \<open>\<^verbatim>\<open>new LRU(pointBudget)\<close>; \<open>h\<close> is the content of the cells not yet allocated.\<close>

definition LRU_new :: "int \<Rightarrow> (addr \<Rightarrow> ('b, 'v, 'r) LRUItem) \<Rightarrow> ('b, 'v, 'r) LRU" where
  "LRU_new budget h =
     \<lparr>first_item = None, last_item = None, lru_numPoints = 0, items = Mapping.empty,
      pointBudget = budget, heap = h, fresh = 0\<rparr>"

definition lru_size :: "('b, 'v, 'r) LRU \<Rightarrow> nat" where
  "lru_size s = Mapping.size (items s)"

definition has :: "('b, 'v, 'r) LRU \<Rightarrow> ('b, 'v, 'r) node \<Rightarrow> bool" where
  "has s n = (Mapping.lookup (items s) (node_id n) \<noteq> None)"

text \<open>The assignments \<^verbatim>\<open>a.next = v\<close> and \<^verbatim>\<open>a.previous = v\<close> to the object at address \<open>a\<close>.\<close>

definition set_next :: "addr \<Rightarrow> addr option \<Rightarrow> ('b, 'v, 'r) LRU \<Rightarrow> ('b, 'v, 'r) LRU" where
  "set_next a v s = s\<lparr>heap := (heap s)(a := (heap s a)\<lparr>next_item := v\<rparr>)\<rparr>"

definition set_previous :: "addr \<Rightarrow> addr option \<Rightarrow> ('b, 'v, 'r) LRU \<Rightarrow> ('b, 'v, 'r) LRU" where
  "set_previous a v s = s\<lparr>heap := (heap s)(a := (heap s a)\<lparr>previous_item := v\<rparr>)\<rparr>"

definition addNew :: "('b, 'v, 'r) LRU \<Rightarrow> ('b, 'v, 'r) node \<Rightarrow> ('b, 'v, 'r) LRU" where
  "addNew s n =
     (let a = fresh s;
          s1 = s\<lparr>heap := (heap s)(a := \<lparr>node = n, next_item = None, previous_item = last_item s\<rparr>),
                 fresh := Suc a\<rparr>;
          s2 = s1\<lparr>last_item := Some a\<rparr>;
          s3 = (case previous_item (heap s2 a) of
                  Some p \<Rightarrow> set_next p (Some a) s2
                | None \<Rightarrow> s2);
          s4 = (if first_item s3 = None then s3\<lparr>first_item := Some a\<rparr> else s3)
      in s4\<lparr>items := Mapping.update (node_id n) a (items s4),
             lru_numPoints := lru_numPoints s4 + numPoints n\<rparr>)"

text \<open>
  The tail of both relinking branches of \<^verbatim>\<open>touchExisting\<close>:
  \<^verbatim>\<open>item.previous = this.last; item.next = null; this.last = item;
  if (item.previous) item.previous.next = item\<close>.
\<close>

definition moveToLast :: "addr \<Rightarrow> ('b, 'v, 'r) LRU \<Rightarrow> ('b, 'v, 'r) LRU" where
  "moveToLast a s =
     (let s1 = set_previous a (last_item s) s;
          s2 = set_next a None s1;
          s3 = s2\<lparr>last_item := Some a\<rparr>
      in case previous_item (heap s3 a) of
           Some p \<Rightarrow> set_next p (Some a) s3
         | None \<Rightarrow> s3)"

definition touchExisting :: "('b, 'v, 'r) LRU \<Rightarrow> addr \<Rightarrow> ('b, 'v, 'r) LRU" where
  "touchExisting s a =
     (case previous_item (heap s a) of
        None \<Rightarrow>
          (case next_item (heap s a) of
             Some nx \<Rightarrow> moveToLast a (set_previous nx None (s\<lparr>first_item := Some nx\<rparr>))
           | None \<Rightarrow> s)
      | Some pv \<Rightarrow>
          (case next_item (heap s a) of
             None \<Rightarrow> s
           | Some nx \<Rightarrow> moveToLast a (set_previous nx (Some pv) (set_next pv (Some nx) s))))"

definition touch :: "('b, 'v, 'r) LRU \<Rightarrow> ('b, 'v, 'r) node \<Rightarrow> ('b, 'v, 'r) LRU" where
  "touch s n =
     (if \<not> loaded n then s
      else case Mapping.lookup (items s) (node_id n) of
             Some a \<Rightarrow> touchExisting s a
           | None \<Rightarrow> addNew s n)"

text \<open>
  \<^verbatim>\<open>remove\<close>: the non-null assertions \<^verbatim>\<open>this.first!\<close> and \<^verbatim>\<open>this.last!\<close> are erased at run
  time, so writing a field of \<^verbatim>\<open>null\<close> raises a \<^verbatim>\<open>TypeError\<close>. The three \<^verbatim>\<open>if\<close> statements run
  one after the other, each reading the item again.
\<close>

definition unlinkFirst :: "addr \<Rightarrow> ('b, 'v, 'r) LRU \<Rightarrow> error + ('b, 'v, 'r) LRU" where
  "unlinkFirst a s =
     (if previous_item (heap s a) = None then
        (case next_item (heap s a) of
           None \<Rightarrow> Inl TypeError
         | Some nx \<Rightarrow> Inr (set_previous nx None (s\<lparr>first_item := Some nx\<rparr>)))
      else Inr s)"

definition unlinkLast :: "addr \<Rightarrow> ('b, 'v, 'r) LRU \<Rightarrow> error + ('b, 'v, 'r) LRU" where
  "unlinkLast a s =
     (if next_item (heap s a) = None then
        (case previous_item (heap s a) of
           None \<Rightarrow> Inl TypeError
         | Some pv \<Rightarrow> Inr (set_next pv None (s\<lparr>last_item := Some pv\<rparr>)))
      else Inr s)"

definition unlinkMiddle :: "addr \<Rightarrow> ('b, 'v, 'r) LRU \<Rightarrow> ('b, 'v, 'r) LRU" where
  "unlinkMiddle a s =
     (case (previous_item (heap s a), next_item (heap s a)) of
        (Some pv, Some nx) \<Rightarrow> set_previous nx (Some pv) (set_next pv (Some nx) s)
      | _ \<Rightarrow> s)"

definition forget :: "('b, 'v, 'r) node \<Rightarrow> ('b, 'v, 'r) LRU \<Rightarrow> ('b, 'v, 'r) LRU" where
  "forget n s = s\<lparr>items := Mapping.delete (node_id n) (items s),
                   lru_numPoints := lru_numPoints s - numPoints n\<rparr>"

definition remove :: "('b, 'v, 'r) LRU \<Rightarrow> ('b, 'v, 'r) node \<Rightarrow> error + ('b, 'v, 'r) LRU" where
  "remove s n =
     (case Mapping.lookup (items s) (node_id n) of
        None \<Rightarrow> Inr s
      | Some a \<Rightarrow>
          if lru_size s = 1 then Inr (forget n (s\<lparr>first_item := None, last_item := None\<rparr>))
          else (case unlinkFirst a s of
                  Inl e \<Rightarrow> Inl e
                | Inr s1 \<Rightarrow>
                    (case unlinkLast a s1 of
                       Inl e \<Rightarrow> Inl e
                     | Inr s2 \<Rightarrow> Inr (forget n (unlinkMiddle a s2)))))"

definition getLRUItem :: "('b, 'v, 'r) LRU \<Rightarrow> ('b, 'v, 'r) node option" where
  "getLRUItem s = (case first_item s of Some a \<Rightarrow> Some (node (heap s a)) | None \<Rightarrow> None)"

text \<open>
  \<^verbatim>\<open>disposeSubtree\<close>: the node and every descendant that is still loaded are collected;
  then each is disposed and removed. \<^verbatim>\<open>dispose()\<close> belongs to the node class, which is not
  in the sources; it releases the node's payload and leaves the cache alone, so only the
  removals change the state here.
\<close>

fun removeAll_nodes ::
  "('b, 'v, 'r) LRU \<Rightarrow> ('b, 'v, 'r) node list \<Rightarrow> error + ('b, 'v, 'r) LRU" where
  "removeAll_nodes s [] = Inr s"
| "removeAll_nodes s (n # ns) =
     (case remove s n of Inl e \<Rightarrow> Inl e | Inr s' \<Rightarrow> removeAll_nodes s' ns)"

definition nodesToDispose :: "('b, 'v, 'r) node \<Rightarrow> ('b, 'v, 'r) node list" where
  "nodesToDispose n = n # filter loaded (descendants n)"

definition disposeSubtree ::
  "('b, 'v, 'r) LRU \<Rightarrow> ('b, 'v, 'r) node \<Rightarrow> error + ('b, 'v, 'r) LRU" where
  "disposeSubtree s n = removeAll_nodes s (nodesToDispose n)"

text \<open>
  \<^verbatim>\<open>freeMemory\<close>: the size test runs once, before the loop. The loop may run forever (when
  the total stays above twice the budget and nothing is left to evict), so the result is
  an option: \<open>None\<close> is a call that does not return, \<open>Some (Inl e)\<close> one that throws.
\<close>

partial_function (option) freeMemory_loop ::
  "('b, 'v, 'r) LRU \<Rightarrow> (error + ('b, 'v, 'r) LRU) option" where
  "freeMemory_loop s =
     (if lru_numPoints s > pointBudget s * 2 then
        (case getLRUItem s of
           None \<Rightarrow> freeMemory_loop s
         | Some n \<Rightarrow>
             (case disposeSubtree s n of
                Inl e \<Rightarrow> Some (Inl e)
              | Inr s' \<Rightarrow> freeMemory_loop s'))
      else Some (Inr s))"

definition freeMemory :: "('b, 'v, 'r) LRU \<Rightarrow> (error + ('b, 'v, 'r) LRU) option" where
  "freeMemory s = (if lru_size s \<le> 1 then Some (Inr s) else freeMemory_loop s)"

section \<open>Reading the cache as a list\<close>

text \<open>
  The nodes of the cache from \<^verbatim>\<open>first\<close> along \<^verbatim>\<open>next\<close>, and from \<^verbatim>\<open>last\<close> along \<^verbatim>\<open>previous\<close>.
  A walk takes at most one step more than the cache has items, so it is defined on
  every store.
\<close>

fun walk_next :: "(addr \<Rightarrow> ('b, 'v, 'r) LRUItem) \<Rightarrow> nat \<Rightarrow> addr option \<Rightarrow> ('b, 'v, 'r) node list" where
  "walk_next h 0 a = []"
| "walk_next h (Suc k) None = []"
| "walk_next h (Suc k) (Some a) = node (h a) # walk_next h k (next_item (h a))"

fun walk_previous :: "(addr \<Rightarrow> ('b, 'v, 'r) LRUItem) \<Rightarrow> nat \<Rightarrow> addr option \<Rightarrow> ('b, 'v, 'r) node list" where
  "walk_previous h 0 a = []"
| "walk_previous h (Suc k) None = []"
| "walk_previous h (Suc k) (Some a) = node (h a) # walk_previous h k (previous_item (h a))"

definition order_forward :: "('b, 'v, 'r) LRU \<Rightarrow> ('b, 'v, 'r) node list" where
  "order_forward s = walk_next (heap s) (Suc (lru_size s)) (first_item s)"

definition order_backward :: "('b, 'v, 'r) LRU \<Rightarrow> ('b, 'v, 'r) node list" where
  "order_backward s = walk_previous (heap s) (Suc (lru_size s)) (last_item s)"

text \<open>A sequence of \<^verbatim>\<open>touch\<close> calls.\<close>

definition touches :: "('b, 'v, 'r) LRU \<Rightarrow> ('b, 'v, 'r) node list \<Rightarrow> ('b, 'v, 'r) LRU" where
  "touches s ns = foldl touch s ns"

text \<open>
  The recency order as the specification words it: a loaded node that is touched becomes
  the most recent one, after all others in the order they had; touching a node that is
  not loaded changes nothing.
\<close>

definition recency_step :: "('b, 'v, 'r) node list \<Rightarrow> ('b, 'v, 'r) node \<Rightarrow> ('b, 'v, 'r) node list" where
  "recency_step xs n = (if loaded n then removeAll n xs @ [n] else xs)"

definition recency :: "('b, 'v, 'r) node list \<Rightarrow> ('b, 'v, 'r) node list" where
  "recency ns = foldl recency_step [] ns"

section \<open>Well-formed caches\<close>

text \<open>
  \<open>seg h p as q\<close>: in the store \<open>h\<close> the items at the addresses \<open>as\<close> are linked in this
  order, the first one having \<open>p\<close> before it and the last one \<open>q\<close> after it.
  \<open>wf_lru s as\<close>: the cache \<open>s\<close> is the doubly linked list of the distinct addresses \<open>as\<close>,
  the index holds exactly their nodes under their ids, which are distinct, and the
  tracked total is the sum of their point counts.
\<close>

definition hd_or :: "'a list \<Rightarrow> 'a option \<Rightarrow> 'a option" where
  "hd_or xs q = (case xs of [] \<Rightarrow> q | x # _ \<Rightarrow> Some x)"

definition last_or :: "'a list \<Rightarrow> 'a option \<Rightarrow> 'a option" where
  "last_or xs p = (if xs = [] then p else Some (last xs))"

fun seg :: "(addr \<Rightarrow> ('b, 'v, 'r) LRUItem) \<Rightarrow> addr option \<Rightarrow> addr list \<Rightarrow> addr option \<Rightarrow> bool" where
  "seg h p [] q = True"
| "seg h p (a # as) q =
     (previous_item (h a) = p \<and> next_item (h a) = hd_or as q \<and> seg h (Some a) as q)"

definition nodes_of :: "('b, 'v, 'r) LRU \<Rightarrow> addr list \<Rightarrow> ('b, 'v, 'r) node list" where
  "nodes_of s as = map (\<lambda>a. node (heap s a)) as"

definition wf_lru :: "('b, 'v, 'r) LRU \<Rightarrow> addr list \<Rightarrow> bool" where
  "wf_lru s as \<longleftrightarrow>
     distinct as \<and> (\<forall>a\<in>set as. a < fresh s)
     \<and> first_item s = hd_or as None \<and> last_item s = last_or as None
     \<and> seg (heap s) None as None
     \<and> distinct (map node_id (nodes_of s as))
     \<and> (\<forall>k a. Mapping.lookup (items s) k = Some a \<longleftrightarrow>
                 a \<in> set as \<and> node_id (node (heap s a)) = k)
     \<and> lru_numPoints s = sum_list (map numPoints (nodes_of s as))"

text \<open>
  \<open>coherent s as\<close>: a node that \<^verbatim>\<open>disposeSubtree\<close> may pass to \<^verbatim>\<open>remove\<close> has the point count of
  the cached node of the same id (in the program they are one object). A cache is well
  formed when it is a linked list of some addresses and coherent.
\<close>

definition coherent :: "('b, 'v, 'r) LRU \<Rightarrow> addr list \<Rightarrow> bool" where
  "coherent s as \<longleftrightarrow>
     (\<forall>a\<in>set as. \<forall>d\<in>set (nodesToDispose (node (heap s a))). \<forall>b\<in>set as.
        node_id (node (heap s b)) = node_id d \<longrightarrow> numPoints (node (heap s b)) = numPoints d)"

definition well_formed :: "('b, 'v, 'r) LRU \<Rightarrow> bool" where
  "well_formed s \<longleftrightarrow> (\<exists>as. wf_lru s as \<and> coherent s as)"

section \<open>The scheduler object (class Potree): the point budget\<close>

text \<open>
  Of the fields of \<^verbatim>\<open>Potree\<close>, the private \<^verbatim>\<open>_pointBudget\<close>, \<^verbatim>\<open>maxNumNodesLoading\<close> and the
  cache \<^verbatim>\<open>lru\<close> take part in scheduling.
\<close>

record ('b, 'v, 'r) Potree =
  potree_pointBudget :: int
  maxNumNodesLoading :: int
  lru :: "('b, 'v, 'r) LRU"

text \<open>The getter and the setter of the property \<^verbatim>\<open>pointBudget\<close>.\<close>

definition get_pointBudget :: "('b, 'v, 'r) Potree \<Rightarrow> int" where
  "get_pointBudget p = potree_pointBudget p"

definition set_pointBudget ::
  "('b, 'v, 'r) Potree \<Rightarrow> int \<Rightarrow> (error + ('b, 'v, 'r) Potree) option" where
  "set_pointBudget p v =
     (if v \<noteq> potree_pointBudget p then
        (case freeMemory ((lru p)\<lparr>pointBudget := v\<rparr>) of
           None \<Rightarrow> None
         | Some (Inl e) \<Rightarrow> Some (Inl e)
         | Some (Inr l) \<Rightarrow> Some (Inr (p\<lparr>potree_pointBudget := v, lru := l\<rparr>)))
      else Some (Inr p))"

section \<open>The visibility scheduler (class Potree): data\<close>

text \<open>
  JavaScript numbers that carry geometry (radii, distances, weights, viewport sizes) are
  values of a type \<open>'r\<close> with the operations \<open>+\<close>, \<open>-\<close>, \<open>*\<close>, \<open>/\<close> and \<open><\<close> and no law
  assumed of them, so that every statement below holds for IEEE doubles as for any other
  reading of the operations. What the code takes from the JavaScript and three.js
  libraries is a record: \<^verbatim>\<open>Math.tan\<close>, \<^verbatim>\<open>Math.PI\<close>, \<^verbatim>\<open>Number.MAX_VALUE\<close>, the value of a numeric
  literal, and \<^verbatim>\<open>Vector3.distanceTo\<close>.
\<close>

record ('v, 'r) JS =
  Math_tan :: "'r \<Rightarrow> 'r"
  Math_PI :: 'r
  Number_MAX_VALUE :: 'r
  lit :: "rat \<Rightarrow> 'r"
  distanceTo :: "'v \<Rightarrow> 'v \<Rightarrow> 'r"

text \<open>
  \<^verbatim>\<open>camera.type === PERSPECTIVE_CAMERA\<close> selects the perspective branch; every other camera
  is read as an orthographic one.
\<close>

datatype 'r Camera =
  PerspectiveCamera (fov: 'r)
| OrthographicCamera (ortho_top: 'r) (ortho_bottom: 'r)

text \<open>\<^verbatim>\<open>renderer.getSize(...).height\<close> and \<^verbatim>\<open>renderer.getPixelRatio()\<close>.\<close>

record 'r WebGLRenderer =
  height :: 'r
  pixelRatio :: 'r

datatype ClipMode = DISABLED | CLIP_OUTSIDE | HIGHLIGHT_INSIDE

text \<open>
  A clip box is the test the loop of \<^verbatim>\<open>shouldClip\<close> makes with it: whether the node's box,
  moved to world space by the cloud's \<^verbatim>\<open>matrixWorld\<close>, intersects the world box of the clip box.
\<close>

record 'b PointCloudMaterial =
  numClipBoxes :: nat
  clipMode :: ClipMode
  clipBoxes :: "('b \<Rightarrow> bool) list"

text \<open>
  A point cloud, with the per-frame scratch fields the scheduler writes. \<open>localFrustum\<close> is
  the frustum three.js builds from the camera's projection matrix, its inverse world
  matrix and the cloud's world matrix, given by its method \<^verbatim>\<open>intersectsBox\<close>;
  \<open>localCameraPosition\<close> is the camera position in the cloud's local space. The scene graph
  objects and the bounding-box helpers belong to the renderer and are left out.
\<close>

record ('b, 'v, 'r) PointCloudOctree =
  initialized :: bool
  visible :: bool
  pc_root :: "('b, 'v, 'r) node option"
  maxLevel :: "int option"
  minNodePixelSize :: 'r
  material :: "'b PointCloudMaterial"
  localFrustum :: "'b \<Rightarrow> bool"
  localCameraPosition :: 'v
  pc_numVisiblePoints :: int
  pc_visibleNodes :: "('b, 'v, 'r) node list"
  visibleGeometry :: "('b, 'v, 'r) node list"

record ('b, 'v, 'r) QueueItem =
  pointCloudIndex :: nat
  weight :: 'r
  qnode :: "('b, 'v, 'r) node"
  parent :: "('b, 'v, 'r) node option"

text \<open>
  Modelled from the spec: the class \<^verbatim>\<open>BinaryHeap\<close> (\<^verbatim>\<open>utils/binary-heap\<close>) is not in the
  sources. Its contract: \<^verbatim>\<open>push\<close> inserts an item; \<^verbatim>\<open>pop\<close> removes and returns an item whose
  score, under the function given to the constructor, is least, or nothing when the heap is
  empty; ties are broken arbitrarily. Here the content is a list, and among items of equal
  score the one pushed first is popped.
\<close>

type_synonym 'a BinaryHeap = "'a list"

definition heap_push :: "'a BinaryHeap \<Rightarrow> 'a \<Rightarrow> 'a BinaryHeap" where
  "heap_push q x = q @ [x]"

fun least_score :: "('a \<Rightarrow> 'r::ord) \<Rightarrow> 'a \<Rightarrow> 'a list \<Rightarrow> 'a" where
  "least_score f x [] = x"
| "least_score f x (y # ys) = (if f y < f x then least_score f y ys else least_score f x ys)"

definition heap_pop :: "('a \<Rightarrow> 'r::ord) \<Rightarrow> 'a BinaryHeap \<Rightarrow> ('a \<times> 'a BinaryHeap) option" where
  "heap_pop f q =
     (case q of
        [] \<Rightarrow> None
      | x # xs \<Rightarrow> (let b = least_score f x xs in Some (b, remove1 b q)))"

text \<open>The score function of the scheduler's queue: \<^verbatim>\<open>(x) => 1 / x.weight\<close>.\<close>

definition score :: "('v, 'r::inverse) JS \<Rightarrow> ('b, 'v, 'r) QueueItem \<Rightarrow> 'r" where
  "score L x = lit L 1 / weight x"

text \<open>
  Modelled from the spec: \<^verbatim>\<open>PointCloudOctree.toTreeNode\<close> and the field \<^verbatim>\<open>geometryNode\<close> of
  a tree node are not in the sources. Promotion yields the tree node that wraps the
  geometry node; it has the same id, point count, level, bounding volumes and children.
\<close>

definition toTreeNode :: "('b, 'v, 'r) node \<Rightarrow> ('b, 'v, 'r) node" where
  "toTreeNode n =
     Node (node_id n) (numPoints n) (level n) TreeNode (loaded n) (failed n)
          (boundingBox n) (center n) (radius n) (children n)"

definition geometryNode :: "('b, 'v, 'r) node \<Rightarrow> ('b, 'v, 'r) node" where
  "geometryNode n =
     Node (node_id n) (numPoints n) (level n) GeometryNode (loaded n) (failed n)
          (boundingBox n) (center n) (radius n) (children n)"

fun shouldClip_loop :: "'b \<Rightarrow> ('b \<Rightarrow> bool) list \<Rightarrow> bool" where
  "shouldClip_loop box [] = True"
| "shouldClip_loop box (c # cs) = (if c box then False else shouldClip_loop box cs)"

definition shouldClip :: "('b, 'v, 'r) PointCloudOctree \<Rightarrow> 'b \<Rightarrow> bool" where
  "shouldClip pointCloud box =
     (if numClipBoxes (material pointCloud) = 0
         \<or> clipMode (material pointCloud) \<noteq> CLIP_OUTSIDE
      then False
      else shouldClip_loop box (clipBoxes (material pointCloud)))"

text \<open>
  The local variables of \<^verbatim>\<open>updateVisibility\<close> that the loop changes, with the point clouds
  and the cache it writes to.
\<close>

record ('b, 'v, 'r) frame =
  numVisiblePoints :: int
  visibleNodes :: "('b, 'v, 'r) node list"
  unloadedGeometry :: "('b, 'v, 'r) node list"
  loadedToGPUThisFrame :: nat
  exceededMaxLoadsToGPU :: bool
  nodeLoadFailed :: bool
  priorityQueue :: "('b, 'v, 'r) QueueItem BinaryHeap"
  pointClouds :: "('b, 'v, 'r) PointCloudOctree list"
  frame_lru :: "('b, 'v, 'r) LRU"

text \<open>
  What the loop reads and does not change. \<^verbatim>\<open>MAX_LOADS_TO_GPU\<close> comes from \<^verbatim>\<open>constants.ts\<close>,
  which is not in the sources, and is a parameter; \<open>budget\<close> is \<^verbatim>\<open>this.pointBudget\<close>.
\<close>

record ('b, 'v, 'r) ctx =
  js :: "('v, 'r) JS"
  MAX_LOADS_TO_GPU :: nat
  budget :: int
  camera :: "'r Camera"
  renderer :: "'r WebGLRenderer"
  frustums :: "('b \<Rightarrow> bool) list"
  cameraPositions :: "'v list"

section \<open>The visibility scheduler: expanding children\<close>

definition projectionFactor ::
  "('v, 'r::{times,inverse,minus}) JS \<Rightarrow> 'r Camera \<Rightarrow> 'r \<Rightarrow> 'r \<Rightarrow> 'r" where
  "projectionFactor L cam halfHeight distance =
     (case cam of
        PerspectiveCamera f \<Rightarrow>
          (let fov = (f * Math_PI L) / lit L 180;
               slope = Math_tan L (fov / lit L 2)
           in halfHeight / (slope * distance))
      | OrthographicCamera t b \<Rightarrow> (lit L 2 * halfHeight) / (t - b))"

text \<open>
  The body of the loop of \<^verbatim>\<open>updateChildVisibility\<close> for one child that is not \<^verbatim>\<open>null\<close>: the
  item to push, if any. The camera position is \<^verbatim>\<open>cameraPositions[pointCloudIndex]\<close>, which is
  \<^verbatim>\<open>undefined\<close> out of range; \<^verbatim>\<open>distanceTo\<close> then reads a field of \<^verbatim>\<open>undefined\<close> and throws.
\<close>

definition childItem ::
  "('v, 'r::{plus,minus,times,inverse,ord}) JS \<Rightarrow> ('b, 'v, 'r) QueueItem
   \<Rightarrow> ('b, 'v, 'r) PointCloudOctree \<Rightarrow> ('b, 'v, 'r) node \<Rightarrow> 'v option \<Rightarrow> 'r Camera \<Rightarrow> 'r
   \<Rightarrow> ('b, 'v, 'r) node \<Rightarrow> error + ('b, 'v, 'r) QueueItem option" where
  "childItem L queueItem pointCloud n cameraPosition cam halfHeight child =
     (case cameraPosition of
        None \<Rightarrow> Inl TypeError
      | Some p \<Rightarrow>
          (let distance = distanceTo L (center child) p;
               r = radius child;
               screenPixelRadius = r * projectionFactor L cam halfHeight distance
           in if screenPixelRadius < minNodePixelSize pointCloud then Inr None
              else
                (let w = (if distance < r then Number_MAX_VALUE L
                          else screenPixelRadius + lit L 1 / distance)
                 in Inr (Some \<lparr>pointCloudIndex = pointCloudIndex queueItem, weight = w,
                                qnode = child, parent = Some n\<rparr>))))"

fun updateChildVisibility ::
  "('v, 'r::{plus,minus,times,inverse,ord}) JS \<Rightarrow> ('b, 'v, 'r) QueueItem
   \<Rightarrow> ('b, 'v, 'r) QueueItem BinaryHeap \<Rightarrow> ('b, 'v, 'r) PointCloudOctree
   \<Rightarrow> ('b, 'v, 'r) node \<Rightarrow> 'v option \<Rightarrow> 'r Camera \<Rightarrow> 'r
   \<Rightarrow> ('b, 'v, 'r) node option list
   \<Rightarrow> error + ('b, 'v, 'r) QueueItem BinaryHeap" where
  "updateChildVisibility L queueItem q pointCloud n cameraPosition cam halfHeight [] = Inr q"
| "updateChildVisibility L queueItem q pointCloud n cameraPosition cam halfHeight (None # cs) =
     updateChildVisibility L queueItem q pointCloud n cameraPosition cam halfHeight cs"
| "updateChildVisibility L queueItem q pointCloud n cameraPosition cam halfHeight (Some child # cs) =
     (case childItem L queueItem pointCloud n cameraPosition cam halfHeight child of
        Inl e \<Rightarrow> Inl e
      | Inr None \<Rightarrow>
          updateChildVisibility L queueItem q pointCloud n cameraPosition cam halfHeight cs
      | Inr (Some x) \<Rightarrow>
          updateChildVisibility L queueItem (heap_push q x) pointCloud n cameraPosition cam
            halfHeight cs)"

section \<open>The visibility scheduler: one pass of the loop\<close>

text \<open>How a pass of the \<^verbatim>\<open>while\<close> loop ends: \<^verbatim>\<open>break\<close>, or on to the next pop.\<close>

datatype 's step = Break 's | Continue 's

text \<open>
  The test of lines 165 to 169, left to right with short-circuit evaluation.
  \<^verbatim>\<open>maxLevel\<close> \<^verbatim>\<open>undefined\<close> stands for no limit; \<^verbatim>\<open>frustums[pointCloudIndex]\<close> out of range is
  \<^verbatim>\<open>undefined\<close>, and calling its method throws.
\<close>

definition rejected ::
  "('b, 'v, 'r) ctx \<Rightarrow> ('b, 'v, 'r) PointCloudOctree \<Rightarrow> nat \<Rightarrow> ('b, 'v, 'r) node
   \<Rightarrow> error + bool" where
  "rejected C pointCloud i n =
     (if (case maxLevel pointCloud of Some m \<Rightarrow> level n > m | None \<Rightarrow> False) then Inr True
      else if i \<ge> length (frustums C) then Inl TypeError
      else if \<not> (frustums C ! i) (boundingBox n) then Inr True
      else Inr (shouldClip pointCloud (boundingBox n)))"

text \<open>Lines 172 and 173: the node is counted, globally and in its cloud.\<close>

definition countVisible ::
  "nat \<Rightarrow> ('b, 'v, 'r) node \<Rightarrow> ('b, 'v, 'r) frame \<Rightarrow> ('b, 'v, 'r) frame" where
  "countVisible i n s =
     s\<lparr>numVisiblePoints := numVisiblePoints s + numPoints n,
       pointClouds := (pointClouds s)
         [i := (pointClouds s ! i)
                 \<lparr>pc_numVisiblePoints := pc_numVisiblePoints (pointClouds s ! i) + numPoints n\<rparr>]\<rparr>"

text \<open>
  Lines 177 to 194. The result is the node the pass goes on with, or \<open>None\<close> for
  \<^verbatim>\<open>continue\<close>.
\<close>

definition loadOrPromote ::
  "('b, 'v, 'r) ctx \<Rightarrow> ('b, 'v, 'r) QueueItem \<Rightarrow> nat \<Rightarrow> ('b, 'v, 'r) node
   \<Rightarrow> ('b, 'v, 'r) frame \<Rightarrow> ('b, 'v, 'r) node option \<times> ('b, 'v, 'r) frame" where
  "loadOrPromote C queueItem i n s =
     (if isGeometryNode n
         \<and> (case parent queueItem of None \<Rightarrow> True | Some p \<Rightarrow> isTreeNode p)
      then
        if loaded n \<and> loadedToGPUThisFrame s < MAX_LOADS_TO_GPU C then
          (Some (toTreeNode n), s\<lparr>loadedToGPUThisFrame := loadedToGPUThisFrame s + 1\<rparr>)
        else if \<not> failed n then
          (Some n,
           s\<lparr>exceededMaxLoadsToGPU :=
                (if loaded n \<and> loadedToGPUThisFrame s \<ge> MAX_LOADS_TO_GPU C then True
                 else exceededMaxLoadsToGPU s),
              unloadedGeometry := unloadedGeometry s @ [n],
              pointClouds := (pointClouds s)
                [i := (pointClouds s ! i)
                        \<lparr>visibleGeometry := visibleGeometry (pointClouds s ! i) @ [n]\<rparr>]\<rparr>)
        else (None, s\<lparr>nodeLoadFailed := True\<rparr>)
      else (Some n, s))"

text \<open>
  \<^verbatim>\<open>updateTreeNodeVisibility\<close> touches the cache and records the node as visible; what it
  does to the scene node and the bounding-box helper is the renderer's.
\<close>

definition updateTreeNodeVisibility ::
  "nat \<Rightarrow> ('b, 'v, 'r) node \<Rightarrow> ('b, 'v, 'r) frame \<Rightarrow> ('b, 'v, 'r) frame" where
  "updateTreeNodeVisibility i n s =
     s\<lparr>frame_lru := touch (frame_lru s) (geometryNode n),
       visibleNodes := visibleNodes s @ [n],
       pointClouds := (pointClouds s)
         [i := (pointClouds s ! i)
                 \<lparr>pc_visibleNodes := pc_visibleNodes (pointClouds s ! i) @ [n]\<rparr>]\<rparr>"

text \<open>Lines 196 to 203.\<close>

definition showTreeNode ::
  "nat \<Rightarrow> ('b, 'v, 'r) node \<Rightarrow> ('b, 'v, 'r) frame \<Rightarrow> ('b, 'v, 'r) frame" where
  "showTreeNode i n s =
     (if isTreeNode n then
        (let s1 = updateTreeNodeVisibility i n s
         in s1\<lparr>pointClouds := (pointClouds s1)
                  [i := (pointClouds s1 ! i)
                          \<lparr>visibleGeometry :=
                             visibleGeometry (pointClouds s1 ! i) @ [geometryNode n]\<rparr>]\<rparr>)
      else s)"

text \<open>Lines 205 to 218.\<close>

definition expand ::
  "('b, 'v, 'r::{plus,minus,times,inverse,ord}) ctx \<Rightarrow> ('b, 'v, 'r) QueueItem \<Rightarrow> nat
   \<Rightarrow> ('b, 'v, 'r) node \<Rightarrow> ('b, 'v, 'r) frame \<Rightarrow> error + ('b, 'v, 'r) frame" where
  "expand C queueItem i n s =
     (let halfHeight = lit (js C) (1 / 2) * height (renderer C) * pixelRatio (renderer C)
      in case updateChildVisibility (js C) queueItem (priorityQueue s) (pointClouds s ! i) n
                (if i < length (cameraPositions C) then Some (cameraPositions C ! i) else None)
                (camera C) halfHeight (children n) of
           Inl e \<Rightarrow> Inl e
         | Inr q \<Rightarrow> Inr (s\<lparr>priorityQueue := q\<rparr>))"

definition visit ::
  "('b, 'v, 'r::{plus,minus,times,inverse,ord}) ctx \<Rightarrow> ('b, 'v, 'r) QueueItem
   \<Rightarrow> ('b, 'v, 'r) frame \<Rightarrow> error + ('b, 'v, 'r) frame step" where
  "visit C queueItem s =
     (let n = qnode queueItem in
      if numVisiblePoints s + numPoints n > budget C then Inr (Break s)
      else
        (let i = pointCloudIndex queueItem in
         if i \<ge> length (pointClouds s) then Inl TypeError
         else
           (case rejected C (pointClouds s ! i) i n of
              Inl e \<Rightarrow> Inl e
            | Inr True \<Rightarrow> Inr (Continue s)
            | Inr False \<Rightarrow>
                (case loadOrPromote C queueItem i n (countVisible i n s) of
                   (None, s1) \<Rightarrow> Inr (Continue s1)
                 | (Some n', s1) \<Rightarrow>
                     (case expand C queueItem i n' (showTreeNode i n' s1) of
                        Inl e \<Rightarrow> Inl e
                      | Inr s2 \<Rightarrow> Inr (Continue s2))))))"

section \<open>The visibility scheduler: the loop\<close>

text \<open>
  Each pass takes one item out of the queue and pushes only children of its node, so the
  number of octree nodes below the queued items decreases: the loop ends.
\<close>

definition queued :: "('b, 'v, 'r) QueueItem list \<Rightarrow> nat" where
  "queued q = sum_list (map (\<lambda>x. size (qnode x)) q)"

lemma least_score_in: "least_score f x xs \<in> set (x # xs)"
  by (induction xs arbitrary: x) (auto split: if_splits)

lemma heap_pop_queued:
  assumes "heap_pop f q = Some (x, q')"
  shows "queued q = size (qnode x) + queued q'"
proof -
  from assms obtain y ys where q: "q = y # ys" and x: "x = least_score f y ys"
    and q': "q' = remove1 x q"
    by (auto simp: heap_pop_def Let_def split: list.splits)
  from x q have "x \<in> set q" using least_score_in [of f y ys] by simp
  then show ?thesis
    unfolding queued_def q' by (rule sum_list_map_remove1)
qed

lemma childItem_node:
  "childItem L x pc n cp cam hh child = Inr (Some y) \<Longrightarrow> qnode y = child"
  by (auto simp: childItem_def Let_def split: option.splits if_splits)

lemma updateChildVisibility_queued:
  "updateChildVisibility L x q pc n cp cam hh cs = Inr q' \<Longrightarrow>
     queued q' \<le> queued q + size_list (size_option size) cs"
proof (induction cs arbitrary: q)
  case Nil
  then show ?case by simp
next
  case (Cons c cs)
  show ?case
  proof (cases c)
    case None
    with Cons.prems have "updateChildVisibility L x q pc n cp cam hh cs = Inr q'" by simp
    from Cons.IH [OF this] None show ?thesis by simp
  next
    case (Some child)
    show ?thesis
    proof (cases "childItem L x pc n cp cam hh child")
      case (Inl e)
      with Some Cons.prems show ?thesis by simp
    next
      case (Inr r)
      show ?thesis
      proof (cases r)
        case None
        with Inr Some Cons.prems
        have "updateChildVisibility L x q pc n cp cam hh cs = Inr q'" by simp
        from Cons.IH [OF this] Some show ?thesis by simp
      next
        case (Some y)
        with Inr \<open>c = Some child\<close> Cons.prems
        have "updateChildVisibility L x (heap_push q y) pc n cp cam hh cs = Inr q'" by simp
        from Cons.IH [OF this] childItem_node [of L x pc n cp cam hh child y] Inr Some
          \<open>c = Some child\<close>
        show ?thesis by (simp add: queued_def heap_push_def)
      qed
    qed
  qed
qed

lemma size_children: "size n = size_list (size_option size) (children n) + 1"
  by (cases n) simp

lemma expand_queued:
  "expand C x i n s = Inr s' \<Longrightarrow> queued (priorityQueue s') < queued (priorityQueue s) + size n"
  by (auto simp: expand_def Let_def size_children split: sum.splits
      dest!: updateChildVisibility_queued)

lemma loadOrPromote_queue:
  "loadOrPromote C x i n s = (r, s') \<Longrightarrow> priorityQueue s' = priorityQueue s"
  by (auto simp: loadOrPromote_def split: if_splits)

lemma loadOrPromote_size:
  "loadOrPromote C x i n s = (Some n', s') \<Longrightarrow> size n' = size n"
  by (auto simp: loadOrPromote_def toTreeNode_def size_children split: if_splits)

lemma showTreeNode_queue: "priorityQueue (showTreeNode i n s) = priorityQueue s"
  by (simp add: showTreeNode_def updateTreeNodeVisibility_def Let_def)

lemma countVisible_queue: "priorityQueue (countVisible i n s) = priorityQueue s"
  by (simp add: countVisible_def)

lemma visit_queued:
  assumes "visit C x s = Inr (Continue s')"
  shows "queued (priorityQueue s') < queued (priorityQueue s) + size (qnode x)"
proof -
  let ?n = "qnode x" and ?i = "pointCloudIndex x"
  show ?thesis
  proof (cases "rejected C (pointClouds s ! ?i) ?i ?n")
    case (Inl e)
    with assms show ?thesis
      by (auto simp: visit_def Let_def split: if_splits)
  next
    case (Inr b)
    show ?thesis
    proof (cases b)
      case True
      with Inr assms have "s' = s"
        by (auto simp: visit_def Let_def split: if_splits)
      moreover have "0 < size ?n" by (simp add: size_children)
      ultimately show ?thesis by simp
    next
      case False
      obtain r s1 where lp: "loadOrPromote C x ?i ?n (countVisible ?i ?n s) = (r, s1)"
        by (cases "loadOrPromote C x ?i ?n (countVisible ?i ?n s)")
      have q1: "priorityQueue s1 = priorityQueue s"
        using loadOrPromote_queue [OF lp] by (simp add: countVisible_queue)
      show ?thesis
      proof (cases r)
        case None
        with Inr False lp assms have "s' = s1"
          by (auto simp: visit_def Let_def split: if_splits)
        moreover have "0 < size ?n" by (simp add: size_children)
        ultimately show ?thesis using q1 by simp
      next
        case (Some n')
        with Inr False lp assms
        have e: "expand C x ?i n' (showTreeNode ?i n' s1) = Inr s'"
          by (auto simp: visit_def Let_def split: if_splits sum.splits)
        from lp Some have "size n' = size ?n"
          by (auto dest: loadOrPromote_size)
        with expand_queued [OF e] q1 show ?thesis
          by (simp add: showTreeNode_queue)
      qed
    qed
  qed
qed

function traverse ::
  "('b, 'v, 'r::{plus,minus,times,inverse,ord}) ctx \<Rightarrow> ('b, 'v, 'r) frame
   \<Rightarrow> error + ('b, 'v, 'r) frame" where
  "traverse C s =
     (case heap_pop (score (js C)) (priorityQueue s) of
        None \<Rightarrow> Inr s
      | Some (queueItem, q) \<Rightarrow>
          (case visit C queueItem (s\<lparr>priorityQueue := q\<rparr>) of
             Inl e \<Rightarrow> Inl e
           | Inr (Break s') \<Rightarrow> Inr s'
           | Inr (Continue s') \<Rightarrow> traverse C s'))"
  by pat_completeness auto
termination
  by (relation "measure (\<lambda>(C, s). queued (priorityQueue s))")
     (auto dest!: heap_pop_queued visit_queued)

section \<open>The visibility scheduler: one frame\<close>

record ('b, 'v, 'r) structures =
  st_pointClouds :: "('b, 'v, 'r) PointCloudOctree list"
  st_frustums :: "('b \<Rightarrow> bool) list"
  st_cameraPositions :: "'v list"
  st_priorityQueue :: "('b, 'v, 'r) QueueItem BinaryHeap"

text \<open>
  \<^verbatim>\<open>updateVisibilityStructures\<close>: the loop over the clouds, with the index \<open>i\<close> of the cloud
  in hand. A cloud that is not initialized is skipped before anything is pushed; an
  initialized one has its scratch fields reset, its frustum and camera position pushed,
  and, if it is visible and has a root, the root queued under the index \<open>i\<close>. Hiding
  the scene nodes and the bounding-box helpers of the previous frame is the renderer's.
\<close>

fun updateVisibilityStructures_loop ::
  "('v, 'r) JS \<Rightarrow> nat \<Rightarrow> ('b, 'v, 'r) PointCloudOctree list \<Rightarrow> ('b, 'v, 'r) structures
   \<Rightarrow> ('b, 'v, 'r) structures" where
  "updateVisibilityStructures_loop L i [] st = st"
| "updateVisibilityStructures_loop L i (pointCloud # rest) st =
     (if \<not> initialized pointCloud then
        updateVisibilityStructures_loop L (Suc i) rest
          (st\<lparr>st_pointClouds := st_pointClouds st @ [pointCloud]\<rparr>)
      else
        (let pc = pointCloud\<lparr>pc_numVisiblePoints := 0, pc_visibleNodes := [],
                             visibleGeometry := []\<rparr>
         in updateVisibilityStructures_loop L (Suc i) rest
              (st\<lparr>st_pointClouds := st_pointClouds st @ [pc],
                  st_frustums := st_frustums st @ [localFrustum pc],
                  st_cameraPositions := st_cameraPositions st @ [localCameraPosition pc],
                  st_priorityQueue :=
                    (case pc_root pc of
                       Some r \<Rightarrow>
                         if visible pc then
                           heap_push (st_priorityQueue st)
                             \<lparr>pointCloudIndex = i, weight = Number_MAX_VALUE L,
                              qnode = r, parent = None\<rparr>
                         else st_priorityQueue st
                     | None \<Rightarrow> st_priorityQueue st)\<rparr>)))"

definition updateVisibilityStructures ::
  "('v, 'r) JS \<Rightarrow> ('b, 'v, 'r) PointCloudOctree list \<Rightarrow> ('b, 'v, 'r) structures" where
  "updateVisibilityStructures L pcs =
     updateVisibilityStructures_loop L 0 pcs
       \<lparr>st_pointClouds = [], st_frustums = [], st_cameraPositions = [], st_priorityQueue = []\<rparr>"

text \<open>
  The result of a frame. \<open>result_nodeLoadPromises\<close> lists the nodes whose \<^verbatim>\<open>load()\<close> was
  called, in call order.
\<close>

record ('b, 'v, 'r) IVisibilityUpdateResult =
  result_visibleNodes :: "('b, 'v, 'r) node list"
  result_numVisiblePoints :: int
  result_exceededMaxLoadsToGPU :: bool
  result_nodeLoadFailed :: bool
  result_nodeLoadPromises :: "('b, 'v, 'r) node list"

text \<open>
  \<^verbatim>\<open>updateVisibility\<close>; beside the result it returns the scheduler (its cache is touched) and
  the point clouds (their scratch fields are written).
\<close>

definition updateVisibility ::
  "('v, 'r::{plus,minus,times,inverse,ord}) JS \<Rightarrow> nat \<Rightarrow> ('b, 'v, 'r) Potree
   \<Rightarrow> ('b, 'v, 'r) PointCloudOctree list \<Rightarrow> 'r Camera \<Rightarrow> 'r WebGLRenderer
   \<Rightarrow> error + (('b, 'v, 'r) IVisibilityUpdateResult \<times> ('b, 'v, 'r) Potree
                \<times> ('b, 'v, 'r) PointCloudOctree list)" where
  "updateVisibility L maxLoads P pcs cam rend =
     (let st = updateVisibilityStructures L pcs;
          C = \<lparr>js = L, MAX_LOADS_TO_GPU = maxLoads, budget = get_pointBudget P,
               camera = cam, renderer = rend,
               frustums = st_frustums st, cameraPositions = st_cameraPositions st\<rparr>;
          s0 = \<lparr>numVisiblePoints = 0, visibleNodes = [], unloadedGeometry = [],
                loadedToGPUThisFrame = 0, exceededMaxLoadsToGPU = False,
                nodeLoadFailed = False, priorityQueue = st_priorityQueue st,
                pointClouds = st_pointClouds st, frame_lru = lru P\<rparr>
      in case traverse C s0 of
           Inl e \<Rightarrow> Inl e
         | Inr s \<Rightarrow>
             (let numNodesToLoad =
                    min (maxNumNodesLoading P) (int (length (unloadedGeometry s)))
              in Inr (\<lparr>result_visibleNodes = visibleNodes s,
                        result_numVisiblePoints = numVisiblePoints s,
                        result_exceededMaxLoadsToGPU = exceededMaxLoadsToGPU s,
                        result_nodeLoadFailed = nodeLoadFailed s,
                        result_nodeLoadPromises =
                          take (nat numNodesToLoad) (unloadedGeometry s)\<rparr>,
                      P\<lparr>lru := frame_lru s\<rparr>, pointClouds s)))"

declare traverse.simps [simp del]

section \<open>The visibility scheduler: what a frame has recorded\<close>

text \<open>
  A node is told from another by its id. \<open>recorded_ids\<close> are the ids of the nodes that a
  frame has put, so far, in its visible nodes, in its list of nodes to load, and in the
  visible nodes and the visible geometry of its clouds. \<open>subtree_ids\<close> are the ids of a node
  and of its descendants, \<open>queued_ids\<close> those of the queued nodes and of their descendants.
\<close>

definition cloud_ids :: "('b, 'v, 'r) PointCloudOctree \<Rightarrow> nat set" where
  "cloud_ids pc = node_id ` set (pc_visibleNodes pc) \<union> node_id ` set (visibleGeometry pc)"

definition recorded_ids :: "('b, 'v, 'r) frame \<Rightarrow> nat set" where
  "recorded_ids s =
     node_id ` set (visibleNodes s) \<union> node_id ` set (unloadedGeometry s)
     \<union> (\<Union>pc\<in>set (pointClouds s). cloud_ids pc)"

definition subtree_ids :: "('b, 'v, 'r) node \<Rightarrow> nat set" where
  "subtree_ids n = node_id ` set (n # descendants n)"

definition queued_ids :: "('b, 'v, 'r) QueueItem list \<Rightarrow> nat set" where
  "queued_ids q = (\<Union>x\<in>set q. subtree_ids (qnode x))"

text \<open>
  The context and the first state of the loop of \<^verbatim>\<open>updateVisibility\<close>, and the states in
  which the loop pops: the first state, and every state left by a pass that went on to
  the next pop.
\<close>

definition frame_ctx ::
  "('v, 'r) JS \<Rightarrow> nat \<Rightarrow> ('b, 'v, 'r) Potree \<Rightarrow> ('b, 'v, 'r) PointCloudOctree list
   \<Rightarrow> 'r Camera \<Rightarrow> 'r WebGLRenderer \<Rightarrow> ('b, 'v, 'r) ctx" where
  "frame_ctx L maxLoads P pcs cam rnd =
     \<lparr>js = L, MAX_LOADS_TO_GPU = maxLoads, budget = get_pointBudget P,
      camera = cam, renderer = rnd,
      frustums = st_frustums (updateVisibilityStructures L pcs),
      cameraPositions = st_cameraPositions (updateVisibilityStructures L pcs)\<rparr>"

definition frame_start ::
  "('v, 'r) JS \<Rightarrow> ('b, 'v, 'r) Potree \<Rightarrow> ('b, 'v, 'r) PointCloudOctree list
   \<Rightarrow> ('b, 'v, 'r) frame" where
  "frame_start L P pcs =
     \<lparr>numVisiblePoints = 0, visibleNodes = [], unloadedGeometry = [],
      loadedToGPUThisFrame = 0, exceededMaxLoadsToGPU = False,
      nodeLoadFailed = False,
      priorityQueue = st_priorityQueue (updateVisibilityStructures L pcs),
      pointClouds = st_pointClouds (updateVisibilityStructures L pcs), frame_lru = lru P\<rparr>"

inductive reached ::
  "('b, 'v, 'r::{plus,minus,times,inverse,ord}) ctx \<Rightarrow> ('b, 'v, 'r) frame
   \<Rightarrow> ('b, 'v, 'r) frame \<Rightarrow> bool" where
  start: "reached C s0 s0"
| pass: "reached C s0 s \<Longrightarrow> heap_pop (score (js C)) (priorityQueue s) = Some (x, q) \<Longrightarrow>
         visit C x (s\<lparr>priorityQueue := q\<rparr>) = Inr (Continue s1) \<Longrightarrow> reached C s0 s1"

section \<open>Concrete caches used as test inputs\<close>

definition leaf :: "nat \<Rightarrow> int \<Rightarrow> (unit, unit, int) node" where
  "leaf i np = Node i np 0 GeometryNode True False () () 0 []"

definition blank :: "addr \<Rightarrow> (unit, unit, int) LRUItem" where
  "blank a = \<lparr>node = leaf 0 0, next_item = None, previous_item = None\<rparr>"

definition unloaded_leaf :: "(unit, unit, int) node" where
  "unloaded_leaf = Node 9 50 0 GeometryNode False False () () 0 []"

text \<open>One, two and three nodes of 400 points each, touched once in the order of their ids.\<close>

definition cache1 :: "int \<Rightarrow> (unit, unit, int) LRU" where
  "cache1 b = touch (LRU_new b blank) (leaf 1 400)"

definition cache2 :: "int \<Rightarrow> (unit, unit, int) LRU" where
  "cache2 b = touch (cache1 b) (leaf 2 400)"

definition cache3 :: "int \<Rightarrow> (unit, unit, int) LRU" where
  "cache3 b = touch (cache2 b) (leaf 3 400)"

text \<open>A scheduler with budget 1000 whose cache holds two nodes of 400 points.\<close>

definition potree2 :: "(unit, unit, int) Potree" where
  "potree2 = \<lparr>potree_pointBudget = 1000, maxNumNodesLoading = 4, lru = cache2 1000\<rparr>"

section \<open>Concrete frames used as test inputs\<close>

text \<open>
  Numbers are reals here, positions are points of a line, and every box is the same. The
  camera is orthographic with \<open>top = 1\<close> and \<open>bottom = -1\<close> and the viewport is 2 pixels
  high, so that the projected radius of a node is its radius.
\<close>

definition realJS :: "(real, real) JS" where
  "realJS = \<lparr>Math_tan = tan, Math_PI = pi,
             Number_MAX_VALUE = 2 ^ 1024 - 2 ^ 971,
             lit = of_rat, distanceTo = (\<lambda>x y. \<bar>x - y\<bar>)\<rparr>"

definition ortho :: "real Camera" where
  "ortho = OrthographicCamera 1 (-1)"

definition rend :: "real WebGLRenderer" where
  "rend = \<lparr>height = 2, pixelRatio = 1\<rparr>"

text \<open>
  Node A (60 points) with the children C (10 points) and B (50 points), all loaded. Seen
  from the origin, B has the larger projected radius and so the larger weight.
\<close>

definition nodeC :: "(unit, real, real) node" where
  "nodeC = Node 3 10 1 GeometryNode True False () 12 2 []"

definition nodeB :: "(unit, real, real) node" where
  "nodeB = Node 2 50 1 GeometryNode True False () 8 4 []"

definition nodeA :: "(unit, real, real) node" where
  "nodeA = Node 1 60 0 GeometryNode True False () 10 8 [Some nodeC, None, Some nodeB]"

text \<open>A geometry node whose load failed, with one child.\<close>

definition nodeF :: "(unit, real, real) node" where
  "nodeF = Node 7 30 0 GeometryNode False True () 10 8 [Some nodeC]"

definition noClip :: "unit PointCloudMaterial" where
  "noClip = \<lparr>numClipBoxes = 0, clipMode = DISABLED, clipBoxes = []\<rparr>"

definition cloudA :: "(unit, real, real) PointCloudOctree" where
  "cloudA = \<lparr>initialized = True, visible = True, pc_root = Some nodeA, maxLevel = None,
             minNodePixelSize = 1, material = noClip, localFrustum = (\<lambda>b. True),
             localCameraPosition = 0, pc_numVisiblePoints = 0, pc_visibleNodes = [],
             visibleGeometry = []\<rparr>"

text \<open>
  A cloud that is not initialized; a cloud whose root B lies outside its own frustum; a
  cloud that is initialized and not visible, with a frustum that meets every box.
\<close>

definition cloudU :: "(unit, real, real) PointCloudOctree" where
  "cloudU = cloudA\<lparr>initialized := False\<rparr>"

definition cloudOut :: "(unit, real, real) PointCloudOctree" where
  "cloudOut = cloudA\<lparr>pc_root := Some nodeB, localFrustum := (\<lambda>b. False)\<rparr>"

definition cloudHidden :: "(unit, real, real) PointCloudOctree" where
  "cloudHidden = cloudA\<lparr>visible := False\<rparr>"

definition cloudF :: "(unit, real, real) PointCloudOctree" where
  "cloudF = cloudA\<lparr>pc_root := Some nodeF\<rparr>"

definition emptyItem :: "addr \<Rightarrow> (unit, real, real) LRUItem" where
  "emptyItem a = \<lparr>node = nodeC, next_item = None, previous_item = None\<rparr>"

definition potree100 :: "(unit, real, real) Potree" where
  "potree100 = \<lparr>potree_pointBudget = 100, maxNumNodesLoading = 4, lru = LRU_new 100 emptyItem\<rparr>"

text \<open>The state in which the root of \<open>cloudF\<close> has just been popped.\<close>

definition ctx0 :: "(unit, real, real) ctx" where
  "ctx0 = \<lparr>js = realJS, MAX_LOADS_TO_GPU = 2, budget = 100, camera = ortho, renderer = rend,
           frustums = [\<lambda>b. True], cameraPositions = [0]\<rparr>"

definition frame0 :: "(unit, real, real) frame" where
  "frame0 = \<lparr>numVisiblePoints = 0, visibleNodes = [], unloadedGeometry = [],
             loadedToGPUThisFrame = 0, exceededMaxLoadsToGPU = False, nodeLoadFailed = False,
             priorityQueue = [], pointClouds = [cloudF], frame_lru = LRU_new 100 emptyItem\<rparr>"

definition itemF :: "(unit, real, real) QueueItem" where
  "itemF = \<lparr>pointCloudIndex = 0, weight = Number_MAX_VALUE realJS, qnode = nodeF, parent = None\<rparr>"

text \<open>
  A geometry node whose load failed and which is loaded all the same, with the child C;
  clouds whose roots are that node, B and C; a scheduler with a budget of 20 points; the
  queue item of the root B of a second cloud.
\<close>

definition nodeLF :: "(unit, real, real) node" where
  "nodeLF = Node 8 30 0 GeometryNode True True () 10 8 [Some nodeC]"

definition cloudLF :: "(unit, real, real) PointCloudOctree" where
  "cloudLF = cloudA\<lparr>pc_root := Some nodeLF\<rparr>"

definition cloudB :: "(unit, real, real) PointCloudOctree" where
  "cloudB = cloudA\<lparr>pc_root := Some nodeB\<rparr>"

definition cloudC :: "(unit, real, real) PointCloudOctree" where
  "cloudC = cloudA\<lparr>pc_root := Some nodeC\<rparr>"

definition potree20 :: "(unit, real, real) Potree" where
  "potree20 = \<lparr>potree_pointBudget = 20, maxNumNodesLoading = 4, lru = LRU_new 20 emptyItem\<rparr>"

definition itemB :: "(unit, real, real) QueueItem" where
  "itemB = \<lparr>pointCloudIndex = 1, weight = Number_MAX_VALUE realJS, qnode = nodeB, parent = None\<rparr>"

section \<open>The expansion of children, as the specification words it\<close>

text \<open>
  The children that are present, in order; the projected radius of a child (the field of
  view is in degrees and is converted to radians first); and the weight of a child.
\<close>

definition presentChildren :: "('b, 'v, 'r) node option list \<Rightarrow> ('b, 'v, 'r) node list" where
  "presentChildren cs = [c. Some c \<leftarrow> cs]"

definition projectedRadius ::
  "('v, 'r::{times,inverse,minus}) JS \<Rightarrow> 'r Camera \<Rightarrow> 'r \<Rightarrow> 'v \<Rightarrow> ('b, 'v, 'r) node \<Rightarrow> 'r" where
  "projectedRadius L cam halfHeight p c =
     radius c *
     (case cam of
        PerspectiveCamera f \<Rightarrow>
          halfHeight /
            (Math_tan L (f * Math_PI L / lit L 180 / lit L 2) * distanceTo L (center c) p)
      | OrthographicCamera t b \<Rightarrow> lit L 2 * halfHeight / (t - b))"

definition childWeight ::
  "('v, 'r::{plus,times,inverse,minus,ord}) JS \<Rightarrow> 'r Camera \<Rightarrow> 'r \<Rightarrow> 'v
   \<Rightarrow> ('b, 'v, 'r) node \<Rightarrow> 'r" where
  "childWeight L cam halfHeight p c =
     (if distanceTo L (center c) p < radius c then Number_MAX_VALUE L
      else projectedRadius L cam halfHeight p c + lit L 1 / distanceTo L (center c) p)"

definition state_of :: "'s step \<Rightarrow> 's" where
  "state_of r = (case r of Break s \<Rightarrow> s | Continue s \<Rightarrow> s)"

section \<open>Evaluation of the cache operations\<close>

definition descendants_of_children ::
  "('b, 'v, 'r) node option list \<Rightarrow> ('b, 'v, 'r) node list" where
  "descendants_of_children cs =
     concat (map (\<lambda>c. case c of None \<Rightarrow> [] | Some d \<Rightarrow> d # descendants d) cs)"

lemma descendants_children: "descendants n = descendants_of_children (children n)"
  by (subst descendants.simps) (simp add: descendants_of_children_def)

lemma descendants_of_children_simps:
  "descendants_of_children [] = []"
  "descendants_of_children (None # cs) = descendants_of_children cs"
  "descendants_of_children (Some d # cs) = d # descendants d @ descendants_of_children cs"
  by (simp_all add: descendants_of_children_def)

lemmas lru_eval =
  touch_def addNew_def touchExisting_def moveToLast_def LRU_new_def Let_def
  set_next_def set_previous_def remove_def lru_size_def getLRUItem_def
  disposeSubtree_def nodesToDispose_def descendants_children descendants_of_children_simps
  unlinkFirst_def unlinkLast_def unlinkMiddle_def forget_def
  Mapping.size_update Mapping.size_delete
  leaf_def blank_def cache1_def cache2_def cache3_def

lemmas sched_eval =
  updateVisibility_def updateVisibilityStructures_def Let_def heap_push_def heap_pop_def
  score_def visit_def rejected_def shouldClip_def countVisible_def loadOrPromote_def
  showTreeNode_def updateTreeNodeVisibility_def expand_def childItem_def projectionFactor_def
  isGeometryNode_def isTreeNode_def toTreeNode_def geometryNode_def get_pointBudget_def
  of_rat_divide realJS_def ortho_def rend_def nodeA_def nodeB_def nodeC_def nodeF_def
  noClip_def cloudA_def cloudU_def cloudOut_def cloudHidden_def cloudF_def potree100_def
  ctx0_def frame0_def itemF_def

lemmas frame_eval = sched_eval nodeLF_def cloudLF_def cloudB_def cloudC_def potree20_def itemB_def

section \<open>Touching keeps the cache well formed\<close>

lemma hd_or_simps [simp]: "hd_or [] q = q" "hd_or (x # xs) q = Some x"
  by (simp_all add: hd_or_def)

lemma last_or_simps [simp]:
  "last_or [] p = p" "last_or (x # xs) p = Some (last (x # xs))"
  by (simp_all add: last_or_def)

lemma hd_or_append: "hd_or (xs @ ys) q = hd_or xs (hd_or ys q)"
  by (cases xs) simp_all

lemma last_or_append: "last_or (xs @ ys) p = last_or ys (last_or xs p)"
  by (simp add: last_or_def)

lemma last_or_Cons: "last_or (x # xs) p = last_or xs (Some x)"
  by (simp add: last_or_def)

lemma seg_append:
  "seg h p (xs @ ys) q \<longleftrightarrow> seg h p xs (hd_or ys q) \<and> seg h (last_or xs p) ys q"
proof (induction xs arbitrary: p)
  case Nil
  then show ?case by simp
next
  case (Cons x xs)
  show ?case
    unfolding append_Cons seg.simps Cons.IH hd_or_append last_or_Cons by auto
qed

lemma seg_frame: "a \<notin> set as \<Longrightarrow> seg (h(a := x)) p as q = seg h p as q"
  by (induction as arbitrary: p) auto

lemma seg_set_next_last:
  "distinct as \<Longrightarrow> as \<noteq> [] \<Longrightarrow> seg h p as q \<Longrightarrow>
     seg (h(last as := (h (last as))\<lparr>next_item := q'\<rparr>)) p as q'"
proof (induction as arbitrary: p)
  case Nil
  then show ?case by simp
next
  case (Cons a as)
  show ?case
  proof (cases "as = []")
    case True
    with Cons.prems show ?thesis by simp
  next
    case False
    then have "last as \<in> set as" by simp
    with Cons.prems have ne: "a \<noteq> last as" by auto
    from False obtain b bs where "as = b # bs" by (cases as) auto
    with Cons ne False show ?thesis by auto
  qed
qed

lemma seg_set_previous_hd:
  "distinct (b # bs) \<Longrightarrow> seg h p (b # bs) q \<Longrightarrow>
     seg (h(b := (h b)\<lparr>previous_item := p'\<rparr>)) p' (b # bs) q"
  by (simp add: seg_frame)

lemma wf_lru_new: "wf_lru (LRU_new b h) []"
  by (simp add: wf_lru_def LRU_new_def nodes_of_def)

lemma addNew_wf:
  assumes wf: "wf_lru s as" and absent: "Mapping.lookup (items s) (node_id n) = None"
  shows "wf_lru (addNew s n) (as @ [fresh s])"
    and "nodes_of (addNew s n) (as @ [fresh s]) = nodes_of s as @ [n]"
proof -
  let ?f = "fresh s"
  let ?item = "\<lparr>node = n, next_item = None, previous_item = last_item s\<rparr>"
  let ?h1 = "(heap s)(?f := ?item)"
  from wf have d: "distinct as" and lt: "\<forall>a\<in>set as. a < ?f"
    and fi: "first_item s = hd_or as None" and la: "last_item s = last_or as None"
    and sg: "seg (heap s) None as None"
    and di: "distinct (map node_id (nodes_of s as))"
    and it: "\<forall>k a. Mapping.lookup (items s) k = Some a \<longleftrightarrow>
                 a \<in> set as \<and> node_id (node (heap s a)) = k"
    and np: "lru_numPoints s = sum_list (map numPoints (nodes_of s as))"
    by (simp_all add: wf_lru_def)
  from lt have fn: "?f \<notin> set as" by auto
  from it absent have noid: "\<forall>a\<in>set as. node_id (node (heap s a)) \<noteq> node_id n"
    by (metis option.distinct(1))
  show "wf_lru (addNew s n) (as @ [fresh s])"
  proof (cases "as = []")
    case True
    with fi la absent show ?thesis
      by (auto simp: wf_lru_def addNew_def Let_def nodes_of_def np True it
          Mapping.lookup_update' split: if_splits)
  next
    case False
    then have l: "last_item s = Some (last as)" and lin: "last as \<in> set as"
      using la by (simp_all add: last_or_def)
    from lin fn have lne: "last as \<noteq> ?f" by auto
    let ?h2 = "?h1(last as := (?h1 (last as))\<lparr>next_item := Some ?f\<rparr>)"
    have h: "heap (addNew s n) = ?h2" and f': "fresh (addNew s n) = Suc ?f"
      and fi': "first_item (addNew s n) = first_item s"
      and la': "last_item (addNew s n) = Some ?f"
      and it': "items (addNew s n) = Mapping.update (node_id n) ?f (items s)"
      and np': "lru_numPoints (addNew s n) = lru_numPoints s + numPoints n"
      using l False fi
      by (auto simp: addNew_def Let_def set_next_def hd_or_def split: list.splits)
    have s1: "seg ?h1 None as None" using sg fn by (simp add: seg_frame)
    have s2: "seg ?h2 None as (Some ?f)"
      using seg_set_next_last [OF d False s1] .
    have s3: "seg ?h2 (Some (last as)) [?f] None"
      using lne l by simp
    have sg': "seg ?h2 None (as @ [?f]) None"
      using s2 s3 False by (simp add: seg_append last_or_def)
    have nd: "\<And>a. a \<in> set as \<Longrightarrow> node (?h2 a) = node (heap s a)"
      using fn by auto
    have nf: "node (?h2 ?f) = n" using lne by simp
    have nodes: "nodes_of (addNew s n) as = nodes_of s as"
      unfolding nodes_of_def h using nd by (simp cong: map_cong)
    have nodes': "nodes_of (addNew s n) (as @ [?f]) = nodes_of s as @ [n]"
      using nodes nf by (simp add: nodes_of_def h)
    have c1: "distinct (as @ [?f])" using d fn by simp
    have c2: "\<forall>a\<in>set (as @ [?f]). a < fresh (addNew s n)"
      using lt f' by auto
    have c3: "first_item (addNew s n) = hd_or (as @ [?f]) None"
      using fi' fi False by (simp add: hd_or_append) (cases as, simp_all)
    have c4: "last_item (addNew s n) = last_or (as @ [?f]) None"
      using la' by (simp add: last_or_def)
    have c5: "seg (heap (addNew s n)) None (as @ [?f]) None"
      using sg' h by simp
    have c6: "distinct (map node_id (nodes_of (addNew s n) (as @ [?f])))"
      unfolding nodes' using di noid by (auto simp: nodes_of_def)
    have c7: "\<forall>k a. Mapping.lookup (items (addNew s n)) k = Some a \<longleftrightarrow>
                 a \<in> set (as @ [?f]) \<and> node_id (node (heap (addNew s n) a)) = k"
    proof (intro allI)
      fix k a
      show "Mapping.lookup (items (addNew s n)) k = Some a \<longleftrightarrow>
                 a \<in> set (as @ [?f]) \<and> node_id (node (heap (addNew s n) a)) = k"
      proof (cases "a = ?f")
        case True
        with it fn nf show ?thesis
          unfolding it' h by (auto simp: Mapping.lookup_update' simp del: fun_upd_apply)
      next
        case False
        with it noid nd [of a] show ?thesis
          unfolding it' h
          by (cases "a \<in> set as") (auto simp: Mapping.lookup_update' simp del: fun_upd_apply)
      qed
    qed
    have c8: "lru_numPoints (addNew s n) = sum_list (map numPoints (nodes_of (addNew s n) (as @ [?f])))"
      unfolding nodes' np' np by simp
    from c1 c2 c3 c4 c5 c6 c7 c8 show ?thesis
      unfolding wf_lru_def by blast
  qed
  show "nodes_of (addNew s n) (as @ [fresh s]) = nodes_of s as @ [n]"
    using fn la
    by (auto simp: addNew_def Let_def nodes_of_def set_next_def last_or_def
        split: option.splits)
qed

lemma wf_relink:
  assumes wf: "wf_lru s as"
    and perm: "set as' = set as" "distinct as'"
    and same: "\<And>a. node (heap s' a) = node (heap s a)"
      "items s' = items s" "lru_numPoints s' = lru_numPoints s" "fresh s' = fresh s"
    and links: "first_item s' = hd_or as' None" "last_item s' = last_or as' None"
      "seg (heap s') None as' None"
  shows "wf_lru s' as'"
proof -
  from wf have d: "distinct as" and di: "distinct (map node_id (nodes_of s as))"
    and np: "lru_numPoints s = sum_list (map numPoints (nodes_of s as))"
    and rest: "\<forall>a\<in>set as. a < fresh s"
      "\<forall>k a. Mapping.lookup (items s) k = Some a \<longleftrightarrow>
                 a \<in> set as \<and> node_id (node (heap s a)) = k"
    by (simp_all add: wf_lru_def)
  let ?f = "\<lambda>a. node_id (node (heap s a))" and ?g = "\<lambda>a. numPoints (node (heap s a))"
  from di have "inj_on ?f (set as)"
    by (simp add: nodes_of_def distinct_map comp_def)
  with perm have c6: "distinct (map node_id (nodes_of s' as'))"
    by (simp add: nodes_of_def distinct_map comp_def same)
  have "sum_list (map ?g as') = sum ?g (set as')"
    using perm(2) by (rule sum_list_distinct_conv_sum_set)
  also have "\<dots> = sum ?g (set as)" using perm(1) by simp
  also have "\<dots> = sum_list (map ?g as)"
    using d by (rule sum_list_distinct_conv_sum_set [symmetric])
  finally have c8: "lru_numPoints s' = sum_list (map numPoints (nodes_of s' as'))"
    using np by (simp add: nodes_of_def comp_def same)
  from perm rest same links c6 c8 show ?thesis
    unfolding wf_lru_def by simp
qed

lemma moveToLast_fields:
  "first_item (moveToLast a s) = first_item s"
  "last_item (moveToLast a s) = Some a"
  "items (moveToLast a s) = items s"
  "lru_numPoints (moveToLast a s) = lru_numPoints s"
  "fresh (moveToLast a s) = fresh s"
  "node (heap (moveToLast a s) b) = node (heap s b)"
  by (auto simp: moveToLast_def Let_def set_next_def set_previous_def split: option.splits)

lemma moveToLast_seg:
  assumes d: "distinct zs" "a \<notin> set zs" and ne: "zs \<noteq> []"
    and sg: "seg (heap s) None zs q" and la: "last_item s = Some (last zs)"
  shows "seg (heap (moveToLast a s)) None (zs @ [a]) None"
proof -
  let ?l = "last zs"
  from ne have lin: "?l \<in> set zs" by simp
  with d have lne: "?l \<noteq> a" by auto
  let ?h1 = "(heap s)(a := (heap s a)\<lparr>previous_item := Some ?l\<rparr>)"
  let ?h2 = "?h1(a := (?h1 a)\<lparr>next_item := None\<rparr>)"
  let ?h3 = "?h2(?l := (?h2 ?l)\<lparr>next_item := Some a\<rparr>)"
  have h: "heap (moveToLast a s) = ?h3"
    using la by (simp add: moveToLast_def Let_def set_next_def set_previous_def)
  have "seg ?h2 None zs q" using sg d(2) by (simp add: seg_frame)
  from seg_set_next_last [OF d(1) ne this]
  have s1: "seg ?h3 None zs (Some a)" .
  have s2: "seg ?h3 (Some ?l) [a] None" using lne by simp
  from s1 s2 ne show ?thesis
    unfolding h by (simp add: seg_append last_or_def)
qed

lemma touchExisting_wf:
  assumes wf: "wf_lru s (xs @ a # ys)"
  shows "wf_lru (touchExisting s a) (xs @ ys @ [a])"
    and "nodes_of (touchExisting s a) (xs @ ys @ [a]) = nodes_of s (xs @ ys @ [a])"
proof -
  let ?h = "heap s"
  from wf have d: "distinct (xs @ a # ys)"
    and fi: "first_item s = hd_or (xs @ a # ys) None"
    and la: "last_item s = last_or (xs @ a # ys) None"
    and sg: "seg ?h None (xs @ a # ys) None"
    by (simp_all add: wf_lru_def)
  from sg have sx: "seg ?h None xs (Some a)"
    and pa: "previous_item (?h a) = last_or xs None"
    and na: "next_item (?h a) = hd_or ys None"
    and sy: "seg ?h (Some a) ys None"
    by (simp_all add: seg_append)
  from d have dx: "distinct xs" and dy: "distinct ys" and ax: "a \<notin> set xs"
    and ay: "a \<notin> set ys" and xy: "set xs \<inter> set ys = {}"
    by auto
  have nodes: "\<And>b. node (heap (touchExisting s a) b) = node (heap s b)"
    by (auto simp: touchExisting_def moveToLast_fields set_next_def set_previous_def
        split: option.splits)
  then show "nodes_of (touchExisting s a) (xs @ ys @ [a]) = nodes_of s (xs @ ys @ [a])"
    by (simp add: nodes_of_def)
  have same: "items (touchExisting s a) = items s"
    "lru_numPoints (touchExisting s a) = lru_numPoints s"
    "fresh (touchExisting s a) = fresh s"
    by (auto simp: touchExisting_def moveToLast_fields set_next_def set_previous_def
        split: option.splits)
  have perm: "set (xs @ ys @ [a]) = set (xs @ a # ys)" "distinct (xs @ ys @ [a])"
    using d by auto
  show "wf_lru (touchExisting s a) (xs @ ys @ [a])"
  proof (cases ys)
    case Nil
    with pa na have "touchExisting s a = s"
      by (simp add: touchExisting_def last_or_def split: option.splits)
    with wf Nil show ?thesis by simp
  next
    case (Cons b ys')
    then have yne: "ys \<noteq> []" and hy: "hd_or ys None = Some b" by simp_all
    from la yne have la': "last_item s = Some (last ys)"
      by (simp add: last_or_def)
    show ?thesis
    proof (cases "xs = []")
      case True
      let ?s2 = "set_previous b None (s\<lparr>first_item := Some b\<rparr>)"
      from True pa na hy have te: "touchExisting s a = moveToLast a ?s2"
        by (simp add: touchExisting_def)
      have "seg (heap ?s2) None ys None"
        using seg_set_previous_hd [of b ys' ?h "Some a" None None] dy sy Cons
        by (simp add: set_previous_def)
      moreover have "last_item ?s2 = Some (last ys)"
        using la' by (simp add: set_previous_def)
      ultimately have sg': "seg (heap (touchExisting s a)) None (ys @ [a]) None"
        unfolding te using dy ay yne by (intro moveToLast_seg)
      have fi': "first_item (touchExisting s a) = Some b"
        unfolding te by (simp add: moveToLast_fields set_previous_def)
      have la'': "last_item (touchExisting s a) = Some a"
        unfolding te by (simp add: moveToLast_fields)
      show ?thesis
      proof (rule wf_relink [OF wf perm nodes same])
        show "first_item (touchExisting s a) = hd_or (xs @ ys @ [a]) None"
          using fi' True Cons by simp
        show "last_item (touchExisting s a) = last_or (xs @ ys @ [a]) None"
          using la'' by (simp add: last_or_def)
        show "seg (heap (touchExisting s a)) None (xs @ ys @ [a]) None"
          using sg' True by simp
      qed
    next
      case False
      let ?pv = "last xs"
      from False have px: "last_or xs None = Some ?pv" and pin: "?pv \<in> set xs"
        by (simp_all add: last_or_def)
      let ?s1 = "set_next ?pv (Some b) s"
      let ?s2 = "set_previous b (Some ?pv) ?s1"
      from pa na hy px have te: "touchExisting s a = moveToLast a ?s2"
        by (simp add: touchExisting_def)
      from pin xy have pny: "?pv \<notin> set ys" by auto
      from Cons xy have bnx: "b \<notin> set xs" by auto
      have "seg (heap ?s1) None xs (Some b)"
        using seg_set_next_last [OF dx False sx] by (simp add: set_next_def)
      then have x2: "seg (heap ?s2) None xs (Some b)"
        using bnx by (simp add: set_previous_def seg_frame)
      have "seg (heap ?s1) (Some a) ys None"
        using sy pny by (simp add: set_next_def seg_frame)
      then have y2: "seg (heap ?s2) (Some ?pv) ys None"
        using seg_set_previous_hd [of b ys' "heap ?s1" "Some a" None "Some ?pv"] dy Cons
        by (simp add: set_previous_def)
      from x2 y2 hy px have "seg (heap ?s2) None (xs @ ys) None"
        by (simp add: seg_append)
      moreover have "last_item ?s2 = Some (last (xs @ ys))"
        using la' yne by (simp add: set_previous_def set_next_def)
      moreover have "distinct (xs @ ys)" "a \<notin> set (xs @ ys)" "xs @ ys \<noteq> []"
        using d yne by auto
      ultimately have sg': "seg (heap (touchExisting s a)) None ((xs @ ys) @ [a]) None"
        unfolding te by (intro moveToLast_seg)
      have fi': "first_item (touchExisting s a) = first_item s"
        unfolding te by (simp add: moveToLast_fields set_previous_def set_next_def)
      have la'': "last_item (touchExisting s a) = Some a"
        unfolding te by (simp add: moveToLast_fields)
      show ?thesis
      proof (rule wf_relink [OF wf perm nodes same])
        show "first_item (touchExisting s a) = hd_or (xs @ ys @ [a]) None"
          using fi' fi False by (cases xs) simp_all
        show "last_item (touchExisting s a) = last_or (xs @ ys @ [a]) None"
          using la'' by (simp add: last_or_def)
        show "seg (heap (touchExisting s a)) None (xs @ ys @ [a]) None"
          using sg' by simp
      qed
    qed
  qed
qed

lemma walk_next_seg:
  "seg h p as None \<Longrightarrow> length as \<le> k \<Longrightarrow>
     walk_next h k (hd_or as None) = map (\<lambda>a. node (h a)) as"
proof (induction as arbitrary: k p)
  case Nil
  then show ?case by (cases k) simp_all
next
  case (Cons a as)
  then obtain k' where k: "k = Suc k'" and le: "length as \<le> k'"
    by (cases k) auto
  from Cons.prems have n: "next_item (h a) = hd_or as None" and s: "seg h (Some a) as None"
    by simp_all
  from Cons.IH [OF s le] n k show ?case by simp
qed

lemma walk_previous_seg:
  "seg h None as q \<Longrightarrow> length as \<le> k \<Longrightarrow>
     walk_previous h k (last_or as None) = rev (map (\<lambda>a. node (h a)) as)"
proof (induction as arbitrary: k q rule: rev_induct)
  case Nil
  then show ?case by (cases k) simp_all
next
  case (snoc a as)
  then obtain k' where k: "k = Suc k'" and le: "length as \<le> k'"
    by (cases k) auto
  from snoc.prems have p: "previous_item (h a) = last_or as None"
    and s: "seg h None as (Some a)"
    by (simp_all add: seg_append)
  from snoc.IH [OF s le] p k show ?case by (simp add: last_or_def)
qed

lemma wf_lru_size:
  assumes "wf_lru s as"
  shows "lru_size s = length as"
proof -
  let ?f = "\<lambda>a. node_id (node (heap s a))"
  from assms have d: "distinct as" and di: "distinct (map ?f as)"
    and it: "\<forall>k a. Mapping.lookup (items s) k = Some a \<longleftrightarrow> a \<in> set as \<and> ?f a = k"
    by (simp_all add: wf_lru_def nodes_of_def comp_def)
  have "Mapping.keys (items s) = ?f ` set as"
    using it by (auto simp: Mapping.keys_dom_lookup dom_def)
  then have "lru_size s = card (?f ` set as)"
    by (simp add: lru_size_def Mapping.size_def)
  also have "\<dots> = length as"
    using di by (metis distinct_card length_map list.set_map)
  finally show ?thesis .
qed

lemma wf_lru_order:
  assumes "wf_lru s as"
  shows "order_forward s = nodes_of s as" and "order_backward s = rev (nodes_of s as)"
proof -
  from assms have sg: "seg (heap s) None as None"
    and fi: "first_item s = hd_or as None" and la: "last_item s = last_or as None"
    by (simp_all add: wf_lru_def)
  show "order_forward s = nodes_of s as"
    using walk_next_seg [OF sg, of "Suc (length as)"] fi
    by (simp add: order_forward_def nodes_of_def wf_lru_size [OF assms])
  show "order_backward s = rev (nodes_of s as)"
    using walk_previous_seg [OF sg, of "Suc (length as)"] la
    by (simp add: order_backward_def nodes_of_def wf_lru_size [OF assms])
qed

lemma touch_wf:
  assumes wf: "wf_lru s as"
    and same: "\<forall>m\<in>set (nodes_of s as). node_id m = node_id n \<longrightarrow> m = n"
  shows "\<exists>as'. wf_lru (touch s n) as' \<and> nodes_of (touch s n) as' = recency_step (nodes_of s as) n"
proof (cases "loaded n")
  case False
  with wf show ?thesis by (auto simp: touch_def recency_step_def)
next
  case True
  from wf have it: "\<forall>k a. Mapping.lookup (items s) k = Some a \<longleftrightarrow>
                 a \<in> set as \<and> node_id (node (heap s a)) = k"
    and di: "distinct (map node_id (nodes_of s as))"
    by (simp_all add: wf_lru_def)
  show ?thesis
  proof (cases "Mapping.lookup (items s) (node_id n)")
    case None
    with it have "\<forall>a\<in>set as. node_id (node (heap s a)) \<noteq> node_id n"
      by (metis option.distinct(1))
    then have "n \<notin> set (nodes_of s as)"
      by (auto simp: nodes_of_def)
    then have "recency_step (nodes_of s as) n = nodes_of s as @ [n]"
      using True by (simp add: recency_step_def)
    with addNew_wf [OF wf None] None True show ?thesis
      by (auto simp: touch_def)
  next
    case (Some a)
    with it have ain: "a \<in> set as" and ida: "node_id (node (heap s a)) = node_id n"
      by auto
    with same have na: "node (heap s a) = n" by (auto simp: nodes_of_def)
    from ain obtain xs ys where as: "as = xs @ a # ys" by (auto dest: split_list)
    from di have dn: "distinct (nodes_of s as)" by (simp add: distinct_map)
    from dn na have "n \<notin> set (nodes_of s xs)" "n \<notin> set (nodes_of s ys)"
      unfolding as nodes_of_def by auto
    then have "recency_step (nodes_of s as) n = nodes_of s (xs @ ys @ [a])"
      using True na by (simp add: recency_step_def as nodes_of_def)
    with touchExisting_wf [OF wf [unfolded as]] Some True show ?thesis
      by (auto simp: touch_def)
  qed
qed

lemma recency_step_subset: "set (recency_step xs n) \<subseteq> insert n (set xs)"
  by (auto simp: recency_step_def)

lemma touches_wf:
  assumes "wf_lru s as" and "inj_on node_id (set (nodes_of s as) \<union> set ns)"
  shows "\<exists>as'. wf_lru (touches s ns) as'
           \<and> nodes_of (touches s ns) as' = foldl recency_step (nodes_of s as) ns"
  using assms
proof (induction ns arbitrary: s as)
  case Nil
  then show ?case by (auto simp: touches_def)
next
  case (Cons n ns)
  from Cons.prems(2) have "\<forall>m\<in>set (nodes_of s as). node_id m = node_id n \<longrightarrow> m = n"
    by (auto simp: inj_on_def)
  from touch_wf [OF Cons.prems(1) this] obtain as1 where
    wf1: "wf_lru (touch s n) as1"
    and n1: "nodes_of (touch s n) as1 = recency_step (nodes_of s as) n"
    by blast
  have "set (nodes_of (touch s n) as1) \<union> set ns \<subseteq> set (nodes_of s as) \<union> set (n # ns)"
    unfolding n1 using recency_step_subset [of "nodes_of s as" n] by auto
  with Cons.prems(2) have "inj_on node_id (set (nodes_of (touch s n) as1) \<union> set ns)"
    by (rule inj_on_subset)
  from Cons.IH [OF wf1 this] n1 show ?case
    by (simp add: touches_def)
qed

lemma recency_step_distinct: "distinct xs \<Longrightarrow> distinct (recency_step xs n)"
  by (simp add: recency_step_def distinct_removeAll)

lemma recency_step_set:
  "set (recency_step xs n) = (if loaded n then insert n (set xs) else set xs)"
  by (auto simp: recency_step_def)

lemma foldl_recency:
  "distinct xs \<Longrightarrow> distinct (foldl recency_step xs ns)
     \<and> set (foldl recency_step xs ns) = set xs \<union> {n \<in> set ns. loaded n}"
proof (induction ns arbitrary: xs)
  case Nil
  then show ?case by simp
next
  case (Cons n ns)
  from Cons.IH [OF recency_step_distinct [OF Cons.prems, of n]]
  show ?case by (auto simp: recency_step_set)
qed

lemma recency_distinct: "distinct (recency ns)"
  and recency_set: "set (recency ns) = {n \<in> set ns. loaded n}"
  using foldl_recency [of "[]" ns] by (simp_all add: recency_def)

lemma touch_unloaded: "\<not> loaded n \<Longrightarrow> touch s n = s"
  by (simp add: touch_def)

lemma touch_present:
  "loaded n \<Longrightarrow> has s n \<Longrightarrow>
     lru_numPoints (touch s n) = lru_numPoints s \<and> lru_size (touch s n) = lru_size s"
  by (auto simp: touch_def has_def touchExisting_def moveToLast_fields lru_size_def
      set_next_def set_previous_def split: option.splits)

text \<open>
  C5. After any sequence of \<^verbatim>\<open>touch\<close> calls on a new cache, with nodes told apart by
  their ids, the list read from \<^verbatim>\<open>first\<close> along \<^verbatim>\<open>next\<close> is the recency order of the loaded
  nodes touched (the most recently touched last), the list read from \<^verbatim>\<open>last\<close> along
  \<^verbatim>\<open>previous\<close> is its reverse, \<^verbatim>\<open>size\<close> is the number of distinct loaded nodes touched and
  \<^verbatim>\<open>numPoints\<close> the sum of their point counts. Touching a node that is not loaded changes
  nothing; touching a cached node changes neither \<^verbatim>\<open>numPoints\<close> nor \<^verbatim>\<open>size\<close>.
\<close>

theorem touch_order:
  fixes h :: "addr \<Rightarrow> ('b, 'v, 'r) LRUItem"
  assumes "inj_on node_id (set ns)"
  shows "order_forward (touches (LRU_new b h) ns) = recency ns
       \<and> order_backward (touches (LRU_new b h) ns) = rev (recency ns)
       \<and> lru_size (touches (LRU_new b h) ns) = card {n \<in> set ns. loaded n}
       \<and> lru_numPoints (touches (LRU_new b h) ns) = (\<Sum>n \<in> {n \<in> set ns. loaded n}. numPoints n)
       \<and> (\<forall>(s :: ('b, 'v, 'r) LRU) n. \<not> loaded n \<longrightarrow> touch s n = s)
       \<and> (\<forall>(s :: ('b, 'v, 'r) LRU) n. loaded n \<and> has s n \<longrightarrow>
              lru_numPoints (touch s n) = lru_numPoints s \<and> lru_size (touch s n) = lru_size s)"
proof -
  let ?s = "touches (LRU_new b h) ns"
  from touches_wf [OF wf_lru_new [of b h], of ns] assms obtain as where
    wf: "wf_lru ?s as" and n: "nodes_of ?s as = recency ns"
    by (auto simp: nodes_of_def recency_def)
  from wf_lru_order [OF wf] n
  have o: "order_forward ?s = recency ns" "order_backward ?s = rev (recency ns)"
    by simp_all
  have "lru_size ?s = length (recency ns)"
    using wf_lru_size [OF wf] n [symmetric] by (simp add: nodes_of_def)
  also have "\<dots> = card {n \<in> set ns. loaded n}"
    using distinct_card [OF recency_distinct [of ns]] by (simp add: recency_set)
  finally have sz: "lru_size ?s = card {n \<in> set ns. loaded n}" .
  from wf have "lru_numPoints ?s = sum_list (map numPoints (recency ns))"
    by (simp add: wf_lru_def n)
  also have "\<dots> = (\<Sum>n \<in> {n \<in> set ns. loaded n}. numPoints n)"
    using sum_list_distinct_conv_sum_set [OF recency_distinct [of ns], of numPoints]
    by (simp add: recency_set)
  finally have np: "lru_numPoints ?s = (\<Sum>n \<in> {n \<in> set ns. loaded n}. numPoints n)" .
  from o sz np touch_unloaded touch_present show ?thesis by blast
qed

theorem touch_order_witness:
  "inj_on node_id (set [leaf 1 400, leaf 2 300, unloaded_leaf, leaf 1 400])
   \<and> order_forward (touches (LRU_new 1000 blank) [leaf 1 400, leaf 2 300, unloaded_leaf, leaf 1 400])
       = [leaf 2 300, leaf 1 400]
   \<and> order_backward (touches (LRU_new 1000 blank) [leaf 1 400, leaf 2 300, unloaded_leaf, leaf 1 400])
       = [leaf 1 400, leaf 2 300]
   \<and> lru_numPoints (touches (LRU_new 1000 blank) [leaf 1 400, leaf 2 300, unloaded_leaf, leaf 1 400])
       = 700"
proof -
  let ?ns = "[leaf 1 400, leaf 2 300, unloaded_leaf, leaf 1 400]"
  have h: "inj_on node_id (set ?ns)"
    by (auto simp: inj_on_def leaf_def unloaded_leaf_def)
  have r: "recency ?ns = [leaf 2 300, leaf 1 400]"
    by (simp add: recency_def recency_step_def leaf_def unloaded_leaf_def)
  have "{n \<in> set ?ns. loaded n} = {leaf 1 400, leaf 2 300}"
    by (auto simp: leaf_def unloaded_leaf_def)
  then have "(\<Sum>n \<in> {n \<in> set ?ns. loaded n}. numPoints n) = 700"
    by (simp add: leaf_def)
  with h r touch_order [OF h, of 1000 blank] show ?thesis by simp
qed

section \<open>Removing a node the cache does not hold\<close>

text \<open>
  C10. \<^verbatim>\<open>remove(node)\<close> on a node whose id has no item in the cache returns normally and
  leaves the whole cache state (list, index, point total) as it was.
\<close>

theorem remove_absent_noop:
  "Mapping.lookup (items s) (node_id n) = None \<Longrightarrow> remove s n = Inr s"
  by (simp add: remove_def)

theorem remove_absent_noop_witness:
  "Mapping.lookup (items (cache1 1000)) (node_id (leaf 2 400)) = None
   \<and> remove (cache1 1000) (leaf 2 400) = Inr (cache1 1000)"
proof -
  have h: "Mapping.lookup (items (cache1 1000)) (node_id (leaf 2 400)) = None"
    by (simp add: lru_eval)
  show ?thesis using h remove_absent_noop [OF h] by simp
qed

section \<open>Removing keeps the cache well formed\<close>

lemma wf_unlink:
  assumes wf: "wf_lru s (xs @ a # ys)"
    and same: "\<And>b. node (heap s' b) = node (heap s b)" "fresh s' = fresh s"
    and idx: "items s' = Mapping.delete (node_id (node (heap s a))) (items s)"
    and np: "lru_numPoints s' = lru_numPoints s - numPoints (node (heap s a))"
    and links: "first_item s' = hd_or (xs @ ys) None" "last_item s' = last_or (xs @ ys) None"
      "seg (heap s') None (xs @ ys) None"
  shows "wf_lru s' (xs @ ys)"
proof -
  let ?f = "\<lambda>a. node_id (node (heap s a))"
  from wf have d: "distinct (xs @ a # ys)"
    and di: "distinct (map ?f (xs @ a # ys))"
    and lt: "\<forall>b\<in>set (xs @ a # ys). b < fresh s"
    and it: "\<forall>k b. Mapping.lookup (items s) k = Some b \<longleftrightarrow>
                 b \<in> set (xs @ a # ys) \<and> ?f b = k"
    and n: "lru_numPoints s = sum_list (map numPoints (nodes_of s (xs @ a # ys)))"
    by (simp_all add: wf_lru_def nodes_of_def comp_def)
  have c1: "distinct (xs @ ys)" using d by auto
  have c2: "\<forall>b\<in>set (xs @ ys). b < fresh s'" using lt same by auto
  have c6: "distinct (map node_id (nodes_of s' (xs @ ys)))"
    using di by (simp add: nodes_of_def comp_def same)
  from di have other: "\<forall>b\<in>set (xs @ ys). ?f b \<noteq> ?f a" by (fastforce simp: image_iff)
  have c7: "\<forall>k b. Mapping.lookup (items s') k = Some b \<longleftrightarrow>
                 b \<in> set (xs @ ys) \<and> node_id (node (heap s' b)) = k"
  proof (intro allI)
    fix k b
    show "Mapping.lookup (items s') k = Some b \<longleftrightarrow>
            b \<in> set (xs @ ys) \<and> node_id (node (heap s' b)) = k"
    proof (cases "k = ?f a")
      case True
      with other show ?thesis by (auto simp: idx same)
    next
      case False
      then have "Mapping.lookup (items s') k = Mapping.lookup (items s) k"
        by (simp add: idx)
      with it False show ?thesis by (auto simp: same)
    qed
  qed
  have c8: "lru_numPoints s' = sum_list (map numPoints (nodes_of s' (xs @ ys)))"
    using n by (simp add: np nodes_of_def same)
  from c1 c2 links c6 c7 c8 show ?thesis
    unfolding wf_lru_def by blast
qed

lemma remove_wf:
  assumes wf: "wf_lru s (xs @ a # ys)"
    and nid: "node_id n = node_id (node (heap s a))"
    and nnp: "numPoints n = numPoints (node (heap s a))"
  shows "\<exists>s'. remove s n = Inr s' \<and> wf_lru s' (xs @ ys)
           \<and> (\<forall>b. node (heap s' b) = node (heap s b))
           \<and> pointBudget s' = pointBudget s"
proof -
  let ?h = "heap s"
  from wf have d: "distinct (xs @ a # ys)"
    and fi: "first_item s = hd_or (xs @ a # ys) None"
    and la: "last_item s = last_or (xs @ a # ys) None"
    and sg: "seg ?h None (xs @ a # ys) None"
    and it: "\<forall>k b. Mapping.lookup (items s) k = Some b \<longleftrightarrow>
                 b \<in> set (xs @ a # ys) \<and> node_id (node (heap s b)) = k"
    by (simp_all add: wf_lru_def)
  from it nid have lk: "Mapping.lookup (items s) (node_id n) = Some a" by simp
  from sg have sx: "seg ?h None xs (Some a)"
    and pa: "previous_item (?h a) = last_or xs None"
    and na: "next_item (?h a) = hd_or ys None"
    and sy: "seg ?h (Some a) ys None"
    by (simp_all add: seg_append)
  from d have dx: "distinct xs" and dy: "distinct ys" and ax: "a \<notin> set xs"
    and ay: "a \<notin> set ys" and xy: "set xs \<inter> set ys = {}"
    by auto
  have sz: "lru_size s = length xs + Suc (length ys)"
    using wf_lru_size [OF wf] by simp
  show ?thesis
  proof (cases "xs = [] \<and> ys = []")
    case True
    let ?s' = "forget n (s\<lparr>first_item := None, last_item := None\<rparr>)"
    from True sz lk have r: "remove s n = Inr ?s'"
      by (simp add: remove_def)
    have "wf_lru ?s' (xs @ ys)"
      by (rule wf_unlink [OF wf]) (simp_all add: forget_def True nid nnp)
    with r show ?thesis by (auto simp: forget_def)
  next
    case False
    then have sz1: "lru_size s \<noteq> 1" using sz by (cases xs; cases ys) auto
    show ?thesis
    proof (cases xs)
      case Nil
      with False obtain b ys' where ys: "ys = b # ys'" by (cases ys) auto
      let ?s1 = "set_previous b None (s\<lparr>first_item := Some b\<rparr>)"
      from Nil ys pa na have u1: "unlinkFirst a s = Inr ?s1"
        by (simp add: unlinkFirst_def)
      from ys ay have ba: "b \<noteq> a" by auto
      have n1: "next_item (heap ?s1 a) = Some b" "previous_item (heap ?s1 a) = None"
        using ba na pa ys Nil by (simp_all add: set_previous_def)
      then have u2: "unlinkLast a ?s1 = Inr ?s1" "unlinkMiddle a ?s1 = ?s1"
        by (simp_all add: unlinkLast_def unlinkMiddle_def)
      from u1 u2 lk sz1 have r: "remove s n = Inr (forget n ?s1)"
        by (simp add: remove_def)
      have s1: "seg (heap ?s1) None ys None"
        using seg_set_previous_hd [of b ys' ?h "Some a" None None] dy sy ys
        by (simp add: set_previous_def)
      have "wf_lru (forget n ?s1) (xs @ ys)"
      proof (rule wf_unlink [OF wf])
        show "seg (heap (forget n ?s1)) None (xs @ ys) None"
          using s1 Nil by (simp add: forget_def)
        show "last_item (forget n ?s1) = last_or (xs @ ys) None"
          using la ys by (simp add: forget_def set_previous_def last_or_def)
      qed (simp_all add: forget_def set_previous_def nid nnp Nil ys)
      with r show ?thesis by (auto simp: forget_def set_previous_def)
    next
      case (Cons x xs')
      then have xne: "xs \<noteq> []" by simp
      let ?pv = "last xs"
      from xne have px: "last_or xs None = Some ?pv" and pin: "?pv \<in> set xs"
        by (simp_all add: last_or_def)
      from pa px have u1: "unlinkFirst a s = Inr s"
        by (simp add: unlinkFirst_def)
      from pin ax have pva: "?pv \<noteq> a" by auto
      from pin xy have pny: "?pv \<notin> set ys" by auto
      show ?thesis
      proof (cases ys)
        case Nil
        let ?s2 = "set_next ?pv None (s\<lparr>last_item := Some ?pv\<rparr>)"
        from Nil na pa px have u2: "unlinkLast a s = Inr ?s2"
          by (simp add: unlinkLast_def)
        have "next_item (heap ?s2 a) = None"
          using pva na Nil by (simp add: set_next_def)
        then have u3: "unlinkMiddle a ?s2 = ?s2"
          by (simp add: unlinkMiddle_def split: option.splits)
        from u1 u2 u3 lk sz1 have r: "remove s n = Inr (forget n ?s2)"
          by (simp add: remove_def)
        have s2: "seg (heap ?s2) None xs None"
          using seg_set_next_last [OF dx xne sx] by (simp add: set_next_def)
        have "wf_lru (forget n ?s2) (xs @ ys)"
        proof (rule wf_unlink [OF wf])
          show "seg (heap (forget n ?s2)) None (xs @ ys) None"
            using s2 Nil by (simp add: forget_def)
          show "first_item (forget n ?s2) = hd_or (xs @ ys) None"
            using fi Cons by (simp add: forget_def set_next_def)
          show "last_item (forget n ?s2) = last_or (xs @ ys) None"
            using Nil xne by (simp add: forget_def set_next_def last_or_def)
        qed (simp_all add: forget_def set_next_def nid nnp)
        with r show ?thesis by (auto simp: forget_def set_next_def)
      next
        case (Cons b ys')
        then have yne: "ys \<noteq> []" and hy: "hd_or ys None = Some b" by simp_all
        from na hy have u2: "unlinkLast a s = Inr s"
          by (simp add: unlinkLast_def)
        let ?s3 = "set_previous b (Some ?pv) (set_next ?pv (Some b) s)"
        from pa px na hy have u3: "unlinkMiddle a s = ?s3"
          by (simp add: unlinkMiddle_def)
        from u1 u2 u3 lk sz1 have r: "remove s n = Inr (forget n ?s3)"
          by (simp add: remove_def)
        from Cons xy have bnx: "b \<notin> set xs" by auto
        have "seg (heap (set_next ?pv (Some b) s)) None xs (Some b)"
          using seg_set_next_last [OF dx xne sx] by (simp add: set_next_def)
        then have x3: "seg (heap ?s3) None xs (Some b)"
          using bnx by (simp add: set_previous_def seg_frame)
        have "seg (heap (set_next ?pv (Some b) s)) (Some a) ys None"
          using sy pny by (simp add: set_next_def seg_frame)
        then have y3: "seg (heap ?s3) (Some ?pv) ys None"
          using seg_set_previous_hd [of b ys' "heap (set_next ?pv (Some b) s)" "Some a" None
              "Some ?pv"] dy Cons
          by (simp add: set_previous_def)
        have "wf_lru (forget n ?s3) (xs @ ys)"
        proof (rule wf_unlink [OF wf])
          show "seg (heap (forget n ?s3)) None (xs @ ys) None"
            using x3 y3 hy px by (simp add: forget_def seg_append)
          show "first_item (forget n ?s3) = hd_or (xs @ ys) None"
            using fi \<open>xs = x # xs'\<close> by (simp add: forget_def set_next_def set_previous_def)
          show "last_item (forget n ?s3) = last_or (xs @ ys) None"
            using la yne by (simp add: forget_def set_next_def set_previous_def last_or_def)
        qed (simp_all add: forget_def set_next_def set_previous_def nid nnp)
        with r show ?thesis by (auto simp: forget_def set_next_def set_previous_def)
      qed
    qed
  qed
qed

lemma remove_step:
  assumes wf: "wf_lru s as"
    and np: "\<forall>b\<in>set as. node_id (node (heap s b)) = node_id d \<longrightarrow>
               numPoints (node (heap s b)) = numPoints d"
  shows "\<exists>s' as'. remove s d = Inr s' \<and> wf_lru s' as' \<and> set as' \<subseteq> set as
           \<and> length as' \<le> length as
           \<and> (Mapping.lookup (items s) (node_id d) \<noteq> None \<longrightarrow> length as' < length as)
           \<and> (\<forall>b. node (heap s' b) = node (heap s b)) \<and> pointBudget s' = pointBudget s"
proof (cases "Mapping.lookup (items s) (node_id d)")
  case None
  then have "remove s d = Inr s" by (simp add: remove_def)
  with wf None show ?thesis by auto
next
  case (Some a)
  from wf have it: "\<forall>k b. Mapping.lookup (items s) k = Some b \<longleftrightarrow>
                 b \<in> set as \<and> node_id (node (heap s b)) = k"
    by (simp add: wf_lru_def)
  with Some have ain: "a \<in> set as" and ida: "node_id d = node_id (node (heap s a))"
    by auto
  with np have npa: "numPoints d = numPoints (node (heap s a))" by auto
  from ain obtain xs ys where as: "as = xs @ a # ys" by (auto dest: split_list)
  from remove_wf [OF wf [unfolded as] ida npa] obtain s' where
    "remove s d = Inr s'" "wf_lru s' (xs @ ys)"
    "\<forall>b. node (heap s' b) = node (heap s b)" "pointBudget s' = pointBudget s"
    by blast
  then show ?thesis
    unfolding as by (intro exI [of _ s'] exI [of _ "xs @ ys"]) auto
qed

lemma removeAll_nodes_wf:
  assumes "wf_lru s as"
    and "\<forall>d\<in>set ds. \<forall>b\<in>set as. node_id (node (heap s b)) = node_id d \<longrightarrow>
               numPoints (node (heap s b)) = numPoints d"
  shows "\<exists>s' as'. removeAll_nodes s ds = Inr s' \<and> wf_lru s' as' \<and> set as' \<subseteq> set as
           \<and> length as' \<le> length as
           \<and> (\<forall>b. node (heap s' b) = node (heap s b)) \<and> pointBudget s' = pointBudget s"
  using assms
proof (induction ds arbitrary: s as)
  case Nil
  then show ?case by auto
next
  case (Cons d ds)
  from Cons.prems(2) have "\<forall>b\<in>set as. node_id (node (heap s b)) = node_id d \<longrightarrow>
               numPoints (node (heap s b)) = numPoints d"
    by simp
  from remove_step [OF Cons.prems(1) this] obtain s1 as1 where
    r: "remove s d = Inr s1" and wf1: "wf_lru s1 as1" and sub: "set as1 \<subseteq> set as"
    and len: "length as1 \<le> length as"
    and nd: "\<forall>b. node (heap s1 b) = node (heap s b)" and pb: "pointBudget s1 = pointBudget s"
    by blast
  from Cons.prems(2) sub nd
  have "\<forall>d\<in>set ds. \<forall>b\<in>set as1. node_id (node (heap s1 b)) = node_id d \<longrightarrow>
               numPoints (node (heap s1 b)) = numPoints d"
    by auto
  from Cons.IH [OF wf1 this] obtain s' as' where
    "removeAll_nodes s1 ds = Inr s'" "wf_lru s' as'" "set as' \<subseteq> set as1"
    "length as' \<le> length as1" "\<forall>b. node (heap s' b) = node (heap s1 b)"
    "pointBudget s' = pointBudget s1"
    by blast
  with r sub len nd pb show ?case
    by (intro exI [of _ s'] exI [of _ as']) auto
qed

lemma disposeSubtree_first:
  assumes wf: "wf_lru s (a # as)" and co: "coherent s (a # as)"
  shows "\<exists>s' as'. disposeSubtree s (node (heap s a)) = Inr s' \<and> wf_lru s' as'
           \<and> coherent s' as' \<and> length as' < length (a # as)
           \<and> pointBudget s' = pointBudget s"
proof -
  let ?n = "node (heap s a)"
  let ?ds = "filter loaded (descendants ?n)"
  from wf have it: "\<forall>k b. Mapping.lookup (items s) k = Some b \<longleftrightarrow>
                 b \<in> set (a # as) \<and> node_id (node (heap s b)) = k"
    by (simp add: wf_lru_def)
  then have lk: "Mapping.lookup (items s) (node_id ?n) \<noteq> None"
    by (metis list.set_intros(1) option.distinct(1))
  from co have all: "\<forall>d\<in>set (nodesToDispose ?n). \<forall>b\<in>set (a # as).
      node_id (node (heap s b)) = node_id d \<longrightarrow> numPoints (node (heap s b)) = numPoints d"
    unfolding coherent_def by (metis list.set_intros(1))
  then have "\<forall>b\<in>set (a # as). node_id (node (heap s b)) = node_id ?n \<longrightarrow>
               numPoints (node (heap s b)) = numPoints ?n"
    by (simp add: nodesToDispose_def)
  from remove_step [OF wf this] lk obtain s1 as1 where
    r: "remove s ?n = Inr s1" and wf1: "wf_lru s1 as1" and sub: "set as1 \<subseteq> set (a # as)"
    and len: "length as1 < length (a # as)"
    and nd: "\<forall>b. node (heap s1 b) = node (heap s b)" and pb: "pointBudget s1 = pointBudget s"
    by blast
  from all sub nd
  have "\<forall>d\<in>set ?ds. \<forall>b\<in>set as1. node_id (node (heap s1 b)) = node_id d \<longrightarrow>
               numPoints (node (heap s1 b)) = numPoints d"
    by (auto simp: nodesToDispose_def)
  from removeAll_nodes_wf [OF wf1 this] obtain s' as' where
    r': "removeAll_nodes s1 ?ds = Inr s'" and wf': "wf_lru s' as'"
    and sub': "set as' \<subseteq> set as1" and len': "length as' \<le> length as1"
    and nd': "\<forall>b. node (heap s' b) = node (heap s1 b)"
    and pb': "pointBudget s' = pointBudget s1"
    by blast
  have "coherent s' as'"
    unfolding coherent_def
  proof (intro ballI impI)
    fix x d b
    assume "x \<in> set as'" "d \<in> set (nodesToDispose (node (heap s' x)))" "b \<in> set as'"
      "node_id (node (heap s' b)) = node_id d"
    with sub sub' nd nd' co show "numPoints (node (heap s' b)) = numPoints d"
      unfolding coherent_def by (metis subsetD)
  qed
  with r r' wf' len len' pb pb' show ?thesis
    by (intro exI [of _ s'] exI [of _ as']) (auto simp: disposeSubtree_def nodesToDispose_def)
qed

text \<open>
  On a well-formed cache with a budget that is not negative the loop of \<^verbatim>\<open>freeMemory\<close>
  ends: while the total exceeds twice the budget the cache is not empty, and each pass
  removes at least the least recent item.
\<close>

lemma freeMemory_loop_returns:
  assumes "wf_lru s as" and "coherent s as" and "0 \<le> pointBudget s"
  shows "\<exists>s'. freeMemory_loop s = Some (Inr s') \<and> well_formed s'"
  using assms
proof (induction "length as" arbitrary: s as rule: less_induct)
  case less
  show ?case
  proof (cases "lru_numPoints s > pointBudget s * 2")
    case False
    then have "freeMemory_loop s = Some (Inr s)"
      by (subst freeMemory_loop.simps) simp
    with less.prems show ?thesis by (auto simp: well_formed_def)
  next
    case True
    from less.prems(1) have np: "lru_numPoints s = sum_list (map numPoints (nodes_of s as))"
      and fi: "first_item s = hd_or as None"
      by (simp_all add: wf_lru_def)
    from True less.prems(3) np have "as \<noteq> []" by (auto simp: nodes_of_def)
    then obtain a as0 where as: "as = a # as0" by (cases as) auto
    with fi have g: "getLRUItem s = Some (node (heap s a))"
      by (simp add: getLRUItem_def)
    from disposeSubtree_first [OF less.prems(1,2) [unfolded as]] obtain s1 as1 where
      ds: "disposeSubtree s (node (heap s a)) = Inr s1" and wf1: "wf_lru s1 as1"
      and co1: "coherent s1 as1" and len: "length as1 < length as"
      and pb: "pointBudget s1 = pointBudget s"
      unfolding as by blast
    from less.hyps [OF len wf1 co1] pb less.prems(3) obtain s' where
      "freeMemory_loop s1 = Some (Inr s')" "well_formed s'"
      by auto
    moreover have "freeMemory_loop s = freeMemory_loop s1"
      using True g ds by (subst freeMemory_loop.simps) simp
    ultimately show ?thesis by auto
  qed
qed

lemma freeMemory_returns:
  assumes "well_formed s" and "0 \<le> pointBudget s"
  shows "\<exists>s'. freeMemory s = Some (Inr s') \<and> well_formed s'"
proof (cases "lru_size s \<le> 1")
  case True
  with assms show ?thesis by (auto simp: freeMemory_def)
next
  case False
  from assms obtain as where "wf_lru s as" "coherent s as"
    by (auto simp: well_formed_def)
  from freeMemory_loop_returns [OF this assms(2)] False show ?thesis
    by (simp add: freeMemory_def)
qed

lemma touches_well_formed:
  assumes "inj_on node_id (\<Union>n\<in>set ns. set (nodesToDispose n))"
  shows "well_formed (touches (LRU_new b h) ns)"
proof -
  let ?U = "\<Union>n\<in>set ns. set (nodesToDispose n)"
  let ?s = "touches (LRU_new b h) ns"
  have sub: "set ns \<subseteq> ?U" by (auto simp: nodesToDispose_def)
  with assms have "inj_on node_id (set ns)" by (rule inj_on_subset)
  with touches_wf [OF wf_lru_new [of b h], of ns] obtain as where
    wf: "wf_lru ?s as" and n: "nodes_of ?s as = recency ns"
    by (auto simp: nodes_of_def recency_def)
  have mem: "\<And>a. a \<in> set as \<Longrightarrow> node (heap ?s a) \<in> set ns"
  proof -
    fix a assume "a \<in> set as"
    then have "node (heap ?s a) \<in> set (nodes_of ?s as)" by (simp add: nodes_of_def)
    then show "node (heap ?s a) \<in> set ns" by (simp add: n recency_set)
  qed
  have "coherent ?s as"
    unfolding coherent_def
  proof (intro ballI impI)
    fix a d c
    assume a: "a \<in> set as" and d: "d \<in> set (nodesToDispose (node (heap ?s a)))"
      and c: "c \<in> set as" and eq: "node_id (node (heap ?s c)) = node_id d"
    from mem [OF a] d have "d \<in> ?U" by auto
    moreover from mem [OF c] sub have "node (heap ?s c) \<in> ?U" by auto
    ultimately have "node (heap ?s c) = d" using assms eq by (auto dest: inj_onD)
    then show "numPoints (node (heap ?s c)) = numPoints d" by simp
  qed
  with wf show ?thesis by (auto simp: well_formed_def)
qed

lemma well_formed_pointBudget: "well_formed (s\<lparr>pointBudget := v\<rparr>) = well_formed s"
  by (simp add: well_formed_def wf_lru_def coherent_def nodes_of_def)

lemma cache2_well_formed: "well_formed (cache2 b)"
proof -
  have "inj_on node_id (\<Union>n\<in>set [leaf 1 400, leaf 2 400]. set (nodesToDispose n))"
    by (auto simp: inj_on_def nodesToDispose_def leaf_def descendants_children
        descendants_of_children_simps)
  from touches_well_formed [OF this, of b blank] show ?thesis
    by (simp add: touches_def cache2_def cache1_def)
qed

section \<open>What freeMemory guarantees on return\<close>

lemma freeMemory_loop_post:
  fixes s :: "('b, 'v, 'r) LRU"
  assumes "freeMemory_loop s = Some r"
  shows "case r of Inr s' \<Rightarrow> lru_numPoints s' \<le> 2 * pointBudget s' | Inl e \<Rightarrow> True"
  by (rule freeMemory_loop.raw_induct
    [where P = "\<lambda>s r. case r of Inr s' \<Rightarrow> lru_numPoints s' \<le> 2 * pointBudget s' | Inl e \<Rightarrow> True",
     OF _ assms])
   (fastforce split: if_splits option.splits sum.splits)

lemma freeMemory_post:
  assumes "freeMemory s = Some (Inr s')"
  shows "lru_numPoints s' \<le> 2 * pointBudget s' \<or> lru_size s' \<le> 1"
proof (cases "lru_size s \<le> 1")
  case True
  with assms show ?thesis by (simp add: freeMemory_def)
next
  case False
  with assms have "freeMemory_loop s = Some (Inr s')" by (simp add: freeMemory_def)
  from freeMemory_loop_post [OF this] show ?thesis by simp
qed

text \<open>
  C3. Whenever \<^verbatim>\<open>freeMemory()\<close> returns, the tracked total is at most twice the budget or
  the cache holds at most one item; and on a well-formed cache with a budget that is not
  negative it does return.
\<close>

theorem freeMemory_within_budget_or_small:
  "(\<forall>s'. freeMemory s = Some (Inr s') \<longrightarrow>
          lru_numPoints s' \<le> 2 * pointBudget s' \<or> lru_size s' \<le> 1)
   \<and> (well_formed s \<and> 0 \<le> pointBudget s \<longrightarrow> (\<exists>s'. freeMemory s = Some (Inr s')))"
  using freeMemory_post [of s] freeMemory_returns [of s] by blast

text \<open>Two nodes of 400 points under budget 100: both are evicted, and the call returns.\<close>

theorem freeMemory_within_budget_or_small_witness:
  "well_formed (cache2 100) \<and> 0 \<le> pointBudget (cache2 100)
   \<and> (\<exists>s'. freeMemory (cache2 100) = Some (Inr s')
          \<and> (lru_numPoints s' \<le> 2 * pointBudget s' \<or> lru_size s' \<le> 1))"
proof -
  have a: "well_formed (cache2 100)" by (rule cache2_well_formed)
  have b: "0 \<le> pointBudget (cache2 100)" by (simp add: lru_eval)
  from a b freeMemory_within_budget_or_small [of "cache2 100"] show ?thesis by blast
qed

text \<open>
  The hysteresis scenario of the specification: budget 1000 and three nodes of 400
  points, touched once each. The total is 1200, below twice the budget, and nothing is
  evicted.
\<close>

lemma hysteresis_scenario:
  "lru_numPoints (cache3 1000) = 1200
   \<and> freeMemory (cache3 1000) = Some (Inr (cache3 1000))"
proof -
  have "freeMemory (cache3 1000) = Some (Inr (cache3 1000))"
    unfolding freeMemory_def
    by (subst freeMemory_loop.simps) (simp add: lru_eval)
  moreover have "lru_numPoints (cache3 1000) = 1200"
    by (simp add: lru_eval)
  ultimately show ?thesis by simp
qed

section \<open>When freeMemory evicts\<close>

text \<open>
  C4 as stated: the loop would keep at least one item. It does not: the item count is
  tested once, before the loop, and the loop itself only compares the total with twice
  the budget. Two cached nodes of 400 points under a budget of 100 are both evicted.
\<close>

theorem freeMemory_empties_cache_counterexample:
  "lru_size (cache2 100) = 2
   \<and> map_option (map_sum id lru_size) (freeMemory (cache2 100)) = Some (Inr 0)"
proof -
  have "lru_size (cache2 100) = 2"
    by (simp add: lru_eval)
  moreover have "map_option (map_sum id lru_size) (freeMemory (cache2 100)) = Some (Inr 0)"
    unfolding freeMemory_def
    apply (simp add: lru_eval)
    apply (subst freeMemory_loop.simps)
    apply (simp add: lru_eval)
    apply (subst freeMemory_loop.simps)
    apply (simp add: lru_eval)
    apply (subst freeMemory_loop.simps)
    apply (simp add: lru_eval)
    done
  ultimately show ?thesis by simp
qed

text \<open>
  C4 as amended. \<^verbatim>\<open>freeMemory()\<close> evicts nothing when the cache holds at most one item at
  the call, and its loop evicts nothing once the total is at most twice the budget: in
  both cases the call returns the cache as it was.
\<close>

theorem freeMemory_evicts_only_when:
  "(lru_size s \<le> 1 \<longrightarrow> freeMemory s = Some (Inr s))
   \<and> (lru_numPoints s \<le> pointBudget s * 2 \<longrightarrow>
        freeMemory_loop s = Some (Inr s) \<and> freeMemory s = Some (Inr s))"
proof -
  have "lru_numPoints s \<le> pointBudget s * 2 \<Longrightarrow> freeMemory_loop s = Some (Inr s)"
    by (subst freeMemory_loop.simps) simp
  then show ?thesis by (simp add: freeMemory_def)
qed

theorem freeMemory_evicts_only_when_witness:
  "lru_size (cache1 100) \<le> 1 \<and> freeMemory (cache1 100) = Some (Inr (cache1 100))
   \<and> lru_numPoints (cache2 1000) \<le> pointBudget (cache2 1000) * 2
   \<and> freeMemory_loop (cache2 1000) = Some (Inr (cache2 1000))
   \<and> freeMemory (cache2 1000) = Some (Inr (cache2 1000))"
proof -
  have a: "lru_size (cache1 100) \<le> 1"
    by (simp add: lru_eval)
  have b: "lru_numPoints (cache2 1000) \<le> pointBudget (cache2 1000) * 2"
    by (simp add: lru_eval)
  from a b freeMemory_evicts_only_when [of "cache1 100"]
    freeMemory_evicts_only_when [of "cache2 1000"]
  show ?thesis by simp
qed

section \<open>Changing the point budget\<close>

lemma remove_pointBudget: "remove s n = Inr s' \<Longrightarrow> pointBudget s' = pointBudget s"
  by (auto simp: remove_def unlinkFirst_def unlinkLast_def unlinkMiddle_def forget_def
      set_next_def set_previous_def split: option.splits if_splits sum.splits)

lemma removeAll_nodes_pointBudget:
  "removeAll_nodes s ns = Inr s' \<Longrightarrow> pointBudget s' = pointBudget s"
proof (induction ns arbitrary: s)
  case Nil
  then show ?case by simp
next
  case (Cons n ns)
  then show ?case
    by (auto split: sum.splits dest: remove_pointBudget)
qed

lemma freeMemory_loop_pointBudget:
  fixes s :: "('b, 'v, 'r) LRU"
  assumes "freeMemory_loop s = Some r"
  shows "case r of Inr s' \<Rightarrow> pointBudget s' = pointBudget s | Inl e \<Rightarrow> True"
  by (rule freeMemory_loop.raw_induct
    [where P = "\<lambda>s r. case r of Inr s' \<Rightarrow> pointBudget s' = pointBudget s | Inl e \<Rightarrow> True",
     OF _ assms])
   (fastforce simp: disposeSubtree_def split: if_splits option.splits sum.splits
      dest: removeAll_nodes_pointBudget)

lemma freeMemory_pointBudget:
  "freeMemory s = Some (Inr s') \<Longrightarrow> pointBudget s' = pointBudget s"
  using freeMemory_loop_pointBudget [of s "Inr s'"]
  by (auto simp: freeMemory_def split: if_splits)

text \<open>
  C8. Assigning a value that differs from the current one to \<^verbatim>\<open>pointBudget\<close> stores it in
  the scheduler and in the cache and runs \<^verbatim>\<open>freeMemory()\<close> on the cache under the new
  budget; when the assignment returns, the cache total is at most twice the new budget or
  the cache holds at most one item. On a well-formed cache and for a value that is not
  negative the assignment returns.
\<close>

theorem set_pointBudget_enforces:
  "(v \<noteq> potree_pointBudget p \<and> set_pointBudget p v = Some (Inr p') \<longrightarrow>
      get_pointBudget p' = v \<and> pointBudget (lru p') = v
      \<and> freeMemory ((lru p)\<lparr>pointBudget := v\<rparr>) = Some (Inr (lru p'))
      \<and> (lru_numPoints (lru p') \<le> 2 * v \<or> lru_size (lru p') \<le> 1))
   \<and> (well_formed (lru p) \<and> 0 \<le> v \<longrightarrow> (\<exists>q. set_pointBudget p v = Some (Inr q)))"
proof (intro conjI impI)
  assume "v \<noteq> potree_pointBudget p \<and> set_pointBudget p v = Some (Inr p')"
  then obtain l where
    fm: "freeMemory ((lru p)\<lparr>pointBudget := v\<rparr>) = Some (Inr l)"
    and p': "p' = p\<lparr>potree_pointBudget := v, lru := l\<rparr>"
    by (auto simp: set_pointBudget_def split: option.splits sum.splits)
  from freeMemory_pointBudget [OF fm] have b: "pointBudget l = v" by simp
  from freeMemory_post [OF fm] b
  have "lru_numPoints l \<le> 2 * v \<or> lru_size l \<le> 1" by simp
  with fm p' b show "get_pointBudget p' = v" "pointBudget (lru p') = v"
    "freeMemory ((lru p)\<lparr>pointBudget := v\<rparr>) = Some (Inr (lru p'))"
    "lru_numPoints (lru p') \<le> 2 * v \<or> lru_size (lru p') \<le> 1"
    by (simp_all add: get_pointBudget_def)
next
  assume "well_formed (lru p) \<and> 0 \<le> v"
  then have "well_formed ((lru p)\<lparr>pointBudget := v\<rparr>)" "0 \<le> pointBudget ((lru p)\<lparr>pointBudget := v\<rparr>)"
    by (simp_all add: well_formed_pointBudget)
  from freeMemory_returns [OF this] obtain l where
    "freeMemory ((lru p)\<lparr>pointBudget := v\<rparr>) = Some (Inr l)" by blast
  then show "\<exists>q. set_pointBudget p v = Some (Inr q)"
    by (simp add: set_pointBudget_def)
qed

theorem set_pointBudget_enforces_witness:
  "(100 :: int) \<noteq> potree_pointBudget potree2 \<and> well_formed (lru potree2) \<and> (0 :: int) \<le> 100
   \<and> (\<exists>q. set_pointBudget potree2 100 = Some (Inr q)
          \<and> get_pointBudget q = 100 \<and> pointBudget (lru q) = 100
          \<and> (lru_numPoints (lru q) \<le> 2 * 100 \<or> lru_size (lru q) \<le> 1))"
proof -
  have a: "(100 :: int) \<noteq> potree_pointBudget potree2"
    by (simp add: potree2_def)
  have b: "well_formed (lru potree2)"
    by (simp add: potree2_def cache2_well_formed)
  from b set_pointBudget_enforces [of 100 potree2] obtain q where
    q: "set_pointBudget potree2 100 = Some (Inr q)"
    by auto
  from a q set_pointBudget_enforces [of 100 potree2 q]
  have "get_pointBudget q = 100 \<and> pointBudget (lru q) = 100
          \<and> (lru_numPoints (lru q) \<le> 2 * 100 \<or> lru_size (lru q) \<le> 1)"
    by simp
  with a b q show ?thesis by auto
qed

section \<open>The scenario with budget 100\<close>

text \<open>
  C1. Budget 100; node A (60 points) is the root, its children B (50 points) and C
  (10 points) are both loaded and visible, B with the larger weight. A is accepted and
  promoted; B is popped next and 60 + 50 exceeds the budget, so the traversal stops: the
  result counts 60 visible points, A is the only visible node, and neither B nor C is
  recorded anywhere.
\<close>

theorem scenario_budget_100:
  "map_sum id
     (\<lambda>(r, P, pcs).
        (result_numVisiblePoints r, map node_id (result_visibleNodes r),
         map node_id (result_nodeLoadPromises r),
         map (map node_id \<circ> visibleGeometry) pcs, map pc_numVisiblePoints pcs,
         map node_id (order_forward (lru P))))
     (updateVisibility realJS 2 potree100 [cloudA] ortho rend)
   = Inr (60, [1], [], [[1]], [60], [1])"
  apply (simp add: sched_eval)
  apply (subst traverse.simps)
  apply (simp add: sched_eval)
  apply (subst traverse.simps)
  apply (simp add: sched_eval lru_eval order_forward_def)
  done

section \<open>Which frustum a node is tested against\<close>

text \<open>
  C2, at an input where the code departs from it. The clouds are: one that is not
  initialized, one whose root B (50 points) lies outside its own frustum, and one that is
  not visible. The first cloud is skipped before its frustum is pushed, so the frustum
  list is one entry short and the root of the second cloud, queued under index 1, is
  tested against the frustum of the third. It is accepted: the frame reports 50 visible
  points and B as a visible node. Without the third cloud the frustum list has no entry
  at index 1 and the frame throws.
\<close>

theorem frustum_of_other_cloud:
  "\<not> localFrustum cloudOut (boundingBox nodeB)
   \<and> map_sum id (\<lambda>(r, P, pcs). (result_numVisiblePoints r, map node_id (result_visibleNodes r),
                   map pc_numVisiblePoints pcs))
     (updateVisibility realJS 2 potree100 [cloudU, cloudOut, cloudHidden] ortho rend)
       = Inr (50, [2], [0, 50, 0])
   \<and> map_sum id (\<lambda>(r, P, pcs). result_numVisiblePoints r)
       (updateVisibility realJS 2 potree100 [cloudU, cloudOut] ortho rend) = Inl TypeError"
proof -
  have "\<not> localFrustum cloudOut (boundingBox nodeB)"
    by (simp add: sched_eval)
  moreover
  have "map_sum id (\<lambda>(r, P, pcs). (result_numVisiblePoints r,
                   map node_id (result_visibleNodes r), map pc_numVisiblePoints pcs))
     (updateVisibility realJS 2 potree100 [cloudU, cloudOut, cloudHidden] ortho rend)
       = Inr (50, [2], [0, 50, 0])"
    apply (simp add: sched_eval)
    apply (subst traverse.simps)
    apply (simp add: sched_eval lru_eval)
    apply (subst traverse.simps)
    apply (simp add: sched_eval)
    done
  moreover
  have "map_sum id (\<lambda>(r, P, pcs). result_numVisiblePoints r)
       (updateVisibility realJS 2 potree100 [cloudU, cloudOut] ortho rend) = Inl TypeError"
    apply (simp add: sched_eval)
    apply (subst traverse.simps)
    apply (simp add: sched_eval)
    done
  ultimately show ?thesis by simp
qed

section \<open>Expanding the children of a node\<close>

lemma childItem_spec:
  "childItem L x pc n (Some p) cam hh c =
     Inr (if projectedRadius L cam hh p c < minNodePixelSize pc then None
          else Some \<lparr>pointCloudIndex = pointCloudIndex x, weight = childWeight L cam hh p c,
                     qnode = c, parent = Some n\<rparr>)"
  by (cases cam)
     (simp_all add: childItem_def projectedRadius_def childWeight_def projectionFactor_def
        Let_def)

text \<open>
  C7. With the camera position defined, \<^verbatim>\<open>updateChildVisibility\<close> pushes, in the order of
  the children, one item for each present child whose projected radius is not below the
  cloud's \<^verbatim>\<open>minNodePixelSize\<close>, and nothing else. The projected radius is the radius times
  \<open>halfHeight / (tan (fov / 2) * distance)\<close> for a perspective camera and times
  \<open>2 * halfHeight / (top - bottom)\<close> for an orthographic one; the weight is
  \<^verbatim>\<open>Number.MAX_VALUE\<close> when the distance is below the radius and the projected radius plus
  \<open>1 / distance\<close> otherwise.
\<close>

theorem updateChildVisibility_pushes:
  "updateChildVisibility L x q pc n (Some p) cam hh cs =
     Inr (q @ map (\<lambda>c. \<lparr>pointCloudIndex = pointCloudIndex x,
                          weight = childWeight L cam hh p c, qnode = c, parent = Some n\<rparr>)
                  (filter (\<lambda>c. \<not> projectedRadius L cam hh p c < minNodePixelSize pc)
                     (presentChildren cs)))"
proof (induction cs arbitrary: q)
  case Nil
  then show ?case by (simp add: presentChildren_def)
next
  case (Cons c cs)
  show ?case
  proof (cases c)
    case None
    with Cons.IH [of q] show ?thesis by (simp add: presentChildren_def)
  next
    case (Some d)
    show ?thesis
    proof (cases "projectedRadius L cam hh p d < minNodePixelSize pc")
      case True
      with Some Cons.IH [of q] show ?thesis
        by (simp add: childItem_spec presentChildren_def)
    next
      case False
      with Some Cons.IH [of "heap_push q \<lparr>pointCloudIndex = pointCloudIndex x,
          weight = childWeight L cam hh p d, qnode = d, parent = Some n\<rparr>"]
      show ?thesis
        by (simp add: childItem_spec presentChildren_def heap_push_def)
    qed
  qed
qed

section \<open>A popped node whose load failed\<close>

lemma showTreeNode_counters:
  "numVisiblePoints (showTreeNode i n s) = numVisiblePoints s"
  "i < length (pointClouds s) \<Longrightarrow>
     pc_numVisiblePoints (pointClouds (showTreeNode i n s) ! i)
       = pc_numVisiblePoints (pointClouds s ! i)"
  by (simp_all add: showTreeNode_def updateTreeNodeVisibility_def Let_def)

lemma expand_counters:
  "expand C x i n s = Inr s' \<Longrightarrow>
     numVisiblePoints s' = numVisiblePoints s \<and> pointClouds s' = pointClouds s"
  by (auto simp: expand_def Let_def split: sum.splits)

lemma loadOrPromote_counters:
  assumes "loadOrPromote C x i n s = (r, s')"
  shows "numVisiblePoints s' = numVisiblePoints s"
    and "length (pointClouds s') = length (pointClouds s)"
    and "i < length (pointClouds s) \<Longrightarrow>
       pc_numVisiblePoints (pointClouds s' ! i) = pc_numVisiblePoints (pointClouds s ! i)"
  using assms by (auto simp: loadOrPromote_def split: if_splits)

lemma countVisible_counters:
  "numVisiblePoints (countVisible i n s) = numVisiblePoints s + numPoints n"
  "length (pointClouds (countVisible i n s)) = length (pointClouds s)"
  "i < length (pointClouds s) \<Longrightarrow>
     pc_numVisiblePoints (pointClouds (countVisible i n s) ! i)
       = pc_numVisiblePoints (pointClouds s ! i) + numPoints n"
  by (simp_all add: countVisible_def)

lemma visit_accepted:
  assumes "\<not> numVisiblePoints s + numPoints (qnode x) > budget C"
    and "pointCloudIndex x < length (pointClouds s)"
    and "rejected C (pointClouds s ! pointCloudIndex x) (pointCloudIndex x) (qnode x) = Inr False"
  shows "visit C x s =
     (case loadOrPromote C x (pointCloudIndex x) (qnode x)
             (countVisible (pointCloudIndex x) (qnode x) s) of
        (None, s1) \<Rightarrow> Inr (Continue s1)
      | (Some n', s1) \<Rightarrow>
          (case expand C x (pointCloudIndex x) n' (showTreeNode (pointCloudIndex x) n' s1) of
             Inl e \<Rightarrow> Inl e
           | Inr s2 \<Rightarrow> Inr (Continue s2)))"
  using assms by (simp add: visit_def Let_def)

lemma failed_node_continue:
  assumes "\<not> numVisiblePoints s + numPoints (qnode x) > budget C"
    and "pointCloudIndex x < length (pointClouds s)"
    and "rejected C (pointClouds s ! pointCloudIndex x) (pointCloudIndex x) (qnode x) = Inr False"
    and "isGeometryNode (qnode x)"
    and "case parent x of None \<Rightarrow> True | Some p \<Rightarrow> isTreeNode p"
    and "failed (qnode x)"
    and "\<not> (loaded (qnode x) \<and> loadedToGPUThisFrame s < MAX_LOADS_TO_GPU C)"
  shows "visit C x s =
           Inr (Continue ((countVisible (pointCloudIndex x) (qnode x) s)
                            \<lparr>nodeLoadFailed := True\<rparr>))"
proof -
  let ?i = "pointCloudIndex x" and ?n = "qnode x"
  let ?s0 = "countVisible ?i ?n s"
  have "loadedToGPUThisFrame ?s0 = loadedToGPUThisFrame s"
    by (simp add: countVisible_def)
  with assms(4,5,6,7)
  have "loadOrPromote C x ?i ?n ?s0 = (None, ?s0\<lparr>nodeLoadFailed := True\<rparr>)"
    by (auto simp: loadOrPromote_def)
  with visit_accepted [OF assms(1,2,3)] show ?thesis by simp
qed

lemma map_update_same: "i < length xs \<Longrightarrow> (map f xs)[i := f (xs ! i)] = map f xs"
  by (simp add: list_eq_iff_nth_eq nth_list_update)

lemma failed_hyps:
  "\<not> numVisiblePoints frame0 + numPoints (qnode itemF) > budget ctx0"
  "pointCloudIndex itemF < length (pointClouds frame0)"
  "rejected ctx0 (pointClouds frame0 ! pointCloudIndex itemF) (pointCloudIndex itemF)
     (qnode itemF) = Inr False"
  "isGeometryNode (qnode itemF)"
  "case parent itemF of None \<Rightarrow> True | Some p \<Rightarrow> isTreeNode p"
  "failed (qnode itemF)"
  "\<not> (loaded (qnode itemF) \<and> loadedToGPUThisFrame frame0 < MAX_LOADS_TO_GPU ctx0)"
  by (simp_all add: sched_eval)

text \<open>
  C9. A popped geometry node with \<^verbatim>\<open>failed\<close> set, whose parent is absent or a tree node
  and which passes the budget, level, frustum and clip tests, is counted: whenever the
  pass returns, the global and the per-cloud \<^verbatim>\<open>numVisiblePoints\<close> have grown by its
  \<^verbatim>\<open>numPoints\<close>. When the node is not promoted, the pass does return, with \<^verbatim>\<open>continue\<close>, and
  nothing but the two counters and \<^verbatim>\<open>nodeLoadFailed\<close> has changed.
\<close>

theorem failed_node_is_counted:
  assumes "\<not> numVisiblePoints s + numPoints (qnode x) > budget C"
    and "pointCloudIndex x < length (pointClouds s)"
    and "rejected C (pointClouds s ! pointCloudIndex x) (pointCloudIndex x) (qnode x) = Inr False"
    and "isGeometryNode (qnode x)"
    and "case parent x of None \<Rightarrow> True | Some p \<Rightarrow> isTreeNode p"
    and "failed (qnode x)"
  shows "(\<forall>r. visit C x s = Inr r \<longrightarrow>
            numVisiblePoints (state_of r) = numVisiblePoints s + numPoints (qnode x)
            \<and> pc_numVisiblePoints (pointClouds (state_of r) ! pointCloudIndex x)
                = pc_numVisiblePoints (pointClouds s ! pointCloudIndex x) + numPoints (qnode x))
         \<and> (\<not> (loaded (qnode x) \<and> loadedToGPUThisFrame s < MAX_LOADS_TO_GPU C) \<longrightarrow>
              visit C x s =
                Inr (Continue ((countVisible (pointCloudIndex x) (qnode x) s)
                                 \<lparr>nodeLoadFailed := True\<rparr>)))"
proof -
  let ?i = "pointCloudIndex x" and ?n = "qnode x"
  let ?s0 = "countVisible ?i ?n s"
  obtain r0 s1 where lp: "loadOrPromote C x ?i ?n ?s0 = (r0, s1)"
    by (cases "loadOrPromote C x ?i ?n ?s0")
  note v = visit_accepted [OF assms(1,2,3)]
  have len0: "?i < length (pointClouds ?s0)"
    using assms(2) by (simp add: countVisible_counters)
  have c1: "numVisiblePoints s1 = numVisiblePoints s + numPoints ?n"
    using loadOrPromote_counters(1) [OF lp] by (simp add: countVisible_counters)
  have l1: "?i < length (pointClouds s1)"
    using loadOrPromote_counters(2) [OF lp] len0 by simp
  have p1: "pc_numVisiblePoints (pointClouds s1 ! ?i)
              = pc_numVisiblePoints (pointClouds s ! ?i) + numPoints ?n"
    using loadOrPromote_counters(3) [OF lp len0] assms(2) by (simp add: countVisible_counters)
  have a: "\<forall>r. visit C x s = Inr r \<longrightarrow>
            numVisiblePoints (state_of r) = numVisiblePoints s + numPoints ?n
            \<and> pc_numVisiblePoints (pointClouds (state_of r) ! ?i)
                = pc_numVisiblePoints (pointClouds s ! ?i) + numPoints ?n"
  proof (cases r0)
    case None
    with v lp c1 p1 show ?thesis by (auto simp: state_of_def)
  next
    case (Some n')
    show ?thesis
    proof (intro allI impI)
      fix r assume "visit C x s = Inr r"
      with v lp Some obtain s2 where
        e: "expand C x ?i n' (showTreeNode ?i n' s1) = Inr s2" and r: "r = Continue s2"
        by (auto split: sum.splits)
      from expand_counters [OF e] showTreeNode_counters(1) [of ?i n' s1]
        showTreeNode_counters(2) [OF l1, of n'] c1 p1 r
      show "numVisiblePoints (state_of r) = numVisiblePoints s + numPoints ?n
            \<and> pc_numVisiblePoints (pointClouds (state_of r) ! ?i)
                = pc_numVisiblePoints (pointClouds s ! ?i) + numPoints ?n"
        by (simp add: state_of_def)
    qed
  qed
  have b: "\<not> (loaded ?n \<and> loadedToGPUThisFrame s < MAX_LOADS_TO_GPU C) \<longrightarrow>
              visit C x s = Inr (Continue (?s0\<lparr>nodeLoadFailed := True\<rparr>))"
    using failed_node_continue [OF assms] by blast
  from a b show ?thesis by blast
qed

theorem failed_node_is_counted_witness:
  "\<not> numVisiblePoints frame0 + numPoints (qnode itemF) > budget ctx0
   \<and> pointCloudIndex itemF < length (pointClouds frame0)
   \<and> rejected ctx0 (pointClouds frame0 ! pointCloudIndex itemF) (pointCloudIndex itemF)
        (qnode itemF) = Inr False
   \<and> isGeometryNode (qnode itemF)
   \<and> (case parent itemF of None \<Rightarrow> True | Some p \<Rightarrow> isTreeNode p)
   \<and> failed (qnode itemF)
   \<and> \<not> (loaded (qnode itemF) \<and> loadedToGPUThisFrame frame0 < MAX_LOADS_TO_GPU ctx0)
   \<and> visit ctx0 itemF frame0 =
        Inr (Continue ((countVisible 0 nodeF frame0)\<lparr>nodeLoadFailed := True\<rparr>))
   \<and> numVisiblePoints ((countVisible 0 nodeF frame0)\<lparr>nodeLoadFailed := True\<rparr>) = 30
   \<and> pc_numVisiblePoints
        (pointClouds ((countVisible 0 nodeF frame0)\<lparr>nodeLoadFailed := True\<rparr>) ! 0) = 30"
proof -
  note h = failed_hyps
  from failed_node_is_counted [OF h(1-6)] h(7)
  have v: "visit ctx0 itemF frame0 =
        Inr (Continue ((countVisible 0 nodeF frame0)\<lparr>nodeLoadFailed := True\<rparr>))"
    by (simp add: itemF_def)
  have "numVisiblePoints ((countVisible 0 nodeF frame0)\<lparr>nodeLoadFailed := True\<rparr>) = 30"
    "pc_numVisiblePoints
       (pointClouds ((countVisible 0 nodeF frame0)\<lparr>nodeLoadFailed := True\<rparr>) ! 0) = 30"
    by (simp_all add: sched_eval)
  with h v show ?thesis by simp
qed

section \<open>The point budget and the promotion cap during a frame\<close>

text \<open>
  A pass of the loop never lets the count of visible points exceed the budget nor the
  count of promotions exceed \<^verbatim>\<open>MAX_LOADS_TO_GPU\<close>, so both bounds hold when the traversal
  returns; the frame starts with both counts at zero.
\<close>

lemma showTreeNode_cap:
  "loadedToGPUThisFrame (showTreeNode i n s) = loadedToGPUThisFrame s"
  by (simp add: showTreeNode_def updateTreeNodeVisibility_def Let_def)

lemma expand_cap:
  "expand C x i n s = Inr s' \<Longrightarrow>
     loadedToGPUThisFrame s' = loadedToGPUThisFrame s \<and> numVisiblePoints s' = numVisiblePoints s"
  by (auto simp: expand_def Let_def split: sum.splits)

lemma loadOrPromote_cap:
  assumes "loadOrPromote C x i n s = (r, s')" "loadedToGPUThisFrame s \<le> MAX_LOADS_TO_GPU C"
  shows "loadedToGPUThisFrame s' \<le> MAX_LOADS_TO_GPU C"
proof (cases "isGeometryNode n \<and> (case parent x of None \<Rightarrow> True | Some p \<Rightarrow> isTreeNode p)")
  case False
  with assms show ?thesis by (simp add: loadOrPromote_def)
next
  case g: True
  show ?thesis
  proof (cases "loaded n \<and> loadedToGPUThisFrame s < MAX_LOADS_TO_GPU C")
    case True
    with g assms(1) have "s' = s\<lparr>loadedToGPUThisFrame := loadedToGPUThisFrame s + 1\<rparr>"
      by (simp add: loadOrPromote_def)
    with True show ?thesis by simp
  next
    case False
    with g assms(1) have "loadedToGPUThisFrame s' = loadedToGPUThisFrame s"
      by (cases "failed n") (auto simp: loadOrPromote_def)
    with assms(2) show ?thesis by simp
  qed
qed

lemma visit_break:
  "numVisiblePoints s + numPoints (qnode x) > budget C \<Longrightarrow> visit C x s = Inr (Break s)"
  by (simp add: visit_def)

lemma visit_bad_index:
  "\<not> numVisiblePoints s + numPoints (qnode x) > budget C \<Longrightarrow>
   pointCloudIndex x \<ge> length (pointClouds s) \<Longrightarrow> visit C x s = Inl TypeError"
  by (simp add: visit_def Let_def)

lemma visit_rejected:
  assumes "\<not> numVisiblePoints s + numPoints (qnode x) > budget C"
    and "pointCloudIndex x < length (pointClouds s)"
  shows "rejected C (pointClouds s ! pointCloudIndex x) (pointCloudIndex x) (qnode x) = Inl e
           \<Longrightarrow> visit C x s = Inl e"
    and "rejected C (pointClouds s ! pointCloudIndex x) (pointCloudIndex x) (qnode x) = Inr True
           \<Longrightarrow> visit C x s = Inr (Continue s)"
  using assms by (simp_all add: visit_def Let_def)

lemma visit_keeps_bounds:
  assumes v: "visit C x s = Inr r"
    and b: "numVisiblePoints s \<le> budget C"
    and c: "loadedToGPUThisFrame s \<le> MAX_LOADS_TO_GPU C"
  shows "numVisiblePoints (state_of r) \<le> budget C
         \<and> loadedToGPUThisFrame (state_of r) \<le> MAX_LOADS_TO_GPU C"
proof (cases "numVisiblePoints s + numPoints (qnode x) > budget C")
  case True
  from visit_break [OF True] v have "r = Break s" by simp
  with b c show ?thesis by (simp add: state_of_def)
next
  case False
  let ?i = "pointCloudIndex x" and ?n = "qnode x"
  let ?s0 = "countVisible ?i ?n s"
  have i: "?i < length (pointClouds s)"
  proof (rule ccontr)
    assume "\<not> ?i < length (pointClouds s)"
    then have "visit C x s = Inl TypeError"
      using visit_bad_index [OF False] by simp
    with v show False by simp
  qed
  show ?thesis
  proof (cases "rejected C (pointClouds s ! ?i) ?i ?n")
    case (Inl e)
    from visit_rejected(1) [OF False i Inl] v show ?thesis by simp
  next
    case (Inr rej)
    show ?thesis
    proof (cases rej)
      case True
      from visit_rejected(2) [OF False i] Inr True v have "r = Continue s" by simp
      with b c show ?thesis by (simp add: state_of_def)
    next
      case rf: False
      obtain r0 s1 where lp: "loadOrPromote C x ?i ?n ?s0 = (r0, s1)"
        by (cases "loadOrPromote C x ?i ?n ?s0")
      have b0: "numVisiblePoints ?s0 \<le> budget C" using False
        by (simp add: countVisible_def)
      have c0: "loadedToGPUThisFrame ?s0 \<le> MAX_LOADS_TO_GPU C" using c
        by (simp add: countVisible_def)
      from loadOrPromote_counters(1) [OF lp] b0 have b1: "numVisiblePoints s1 \<le> budget C"
        by simp
      from loadOrPromote_cap [OF lp c0] have c1: "loadedToGPUThisFrame s1 \<le> MAX_LOADS_TO_GPU C" .
      from Inr rf have rj: "rejected C (pointClouds s ! ?i) ?i ?n = Inr False" by simp
      note va = visit_accepted [OF False i rj]
      show ?thesis
      proof (cases r0)
        case None
        with va lp v have "r = Continue s1" by simp
        with b1 c1 show ?thesis by (simp add: state_of_def)
      next
        case (Some n')
        with va lp v obtain s2 where
          e: "expand C x ?i n' (showTreeNode ?i n' s1) = Inr s2" and r: "r = Continue s2"
          by (auto split: sum.splits)
        from expand_cap [OF e] b1 c1 r show ?thesis
          by (simp add: state_of_def showTreeNode_cap showTreeNode_counters(1))
      qed
    qed
  qed
qed

lemma traverse_keeps_bounds:
  "traverse C s = Inr s' \<Longrightarrow> numVisiblePoints s \<le> budget C \<Longrightarrow>
   loadedToGPUThisFrame s \<le> MAX_LOADS_TO_GPU C \<Longrightarrow>
     numVisiblePoints s' \<le> budget C \<and> loadedToGPUThisFrame s' \<le> MAX_LOADS_TO_GPU C"
proof (induction C s rule: traverse.induct)
  case (1 C s)
  show ?case
  proof (cases "heap_pop (score (js C)) (priorityQueue s)")
    case None
    with "1.prems" show ?thesis by (subst (asm) traverse.simps) simp
  next
    case (Some xq)
    obtain x q where xq: "xq = (x, q)" by (cases xq)
    let ?s = "s\<lparr>priorityQueue := q\<rparr>"
    show ?thesis
    proof (cases "visit C x ?s")
      case (Inl e)
      with Some xq "1.prems"(1) show ?thesis by (subst (asm) traverse.simps) simp
    next
      case (Inr r)
      from visit_keeps_bounds [OF Inr] "1.prems"(2,3)
      have k: "numVisiblePoints (state_of r) \<le> budget C
         \<and> loadedToGPUThisFrame (state_of r) \<le> MAX_LOADS_TO_GPU C"
        by simp
      show ?thesis
      proof (cases r)
        case (Break s1)
        with Some xq Inr "1.prems"(1) have "s' = s1"
          by (subst (asm) traverse.simps) simp
        with k Break show ?thesis by (simp add: state_of_def)
      next
        case (Continue s1)
        with Some xq Inr "1.prems"(1) have t: "traverse C s1 = Inr s'"
          by (subst (asm) traverse.simps) simp
        from k Continue have "numVisiblePoints s1 \<le> budget C"
          "loadedToGPUThisFrame s1 \<le> MAX_LOADS_TO_GPU C"
          by (simp_all add: state_of_def)
        with "1.IH" [OF Some xq [symmetric] Inr Continue t] show ?thesis by simp
      qed
    qed
  qed
qed

lemma updateVisibility_within_budget:
  assumes "updateVisibility L m P pcs cam rnd = Inr (r, P', pcs')"
    and "0 \<le> get_pointBudget P"
  shows "result_numVisiblePoints r \<le> get_pointBudget P"
proof -
  let ?st = "updateVisibilityStructures L pcs"
  let ?C = "\<lparr>js = L, MAX_LOADS_TO_GPU = m, budget = get_pointBudget P,
               camera = cam, renderer = rnd,
               frustums = st_frustums ?st, cameraPositions = st_cameraPositions ?st\<rparr>"
  let ?s0 = "\<lparr>numVisiblePoints = 0, visibleNodes = [], unloadedGeometry = [],
                loadedToGPUThisFrame = 0, exceededMaxLoadsToGPU = False,
                nodeLoadFailed = False, priorityQueue = st_priorityQueue ?st,
                pointClouds = st_pointClouds ?st, frame_lru = lru P\<rparr>"
  from assms(1) obtain s where t: "traverse ?C ?s0 = Inr s"
    and r: "result_numVisiblePoints r = numVisiblePoints s"
    by (auto simp: updateVisibility_def Let_def split: sum.splits)
  from traverse_keeps_bounds [OF t] assms(2) r show ?thesis by simp
qed

section \<open>A failed node and the result of the frame\<close>

text \<open>
  Whatever a frame records comes from the queue: the ids recorded when the traversal
  returns are those recorded before or those of a queued node or of one of its
  descendants, and \<^verbatim>\<open>nodeLoadFailed\<close>, once set, stays set.
\<close>

lemma traverse_pass:
  "heap_pop (score (js C)) (priorityQueue s) = Some (x, q) \<Longrightarrow>
   visit C x (s\<lparr>priorityQueue := q\<rparr>) = Inr (Continue s1) \<Longrightarrow>
     traverse C s = traverse C s1"
  by (subst traverse.simps) simp

lemma reached_traverse: "reached C s0 s \<Longrightarrow> traverse C s0 = traverse C s"
  by (induction rule: reached.induct) (simp_all add: traverse_pass)

lemma updateVisibility_traverse:
  "updateVisibility L m P pcs cam rnd = Inr (r, P', pcs') \<Longrightarrow>
     \<exists>s'. traverse (frame_ctx L m P pcs cam rnd) (frame_start L P pcs) = Inr s'
        \<and> result_visibleNodes r = visibleNodes s'
        \<and> result_nodeLoadFailed r = nodeLoadFailed s'
        \<and> set (result_nodeLoadPromises r) \<subseteq> set (unloadedGeometry s')
        \<and> pcs' = pointClouds s'"
  by (auto simp: updateVisibility_def Let_def frame_ctx_def frame_start_def
      split: sum.splits dest: in_set_takeD)

lemma clouds_update_ids:
  assumes "i < length pcs" and "cloud_ids pc' \<subseteq> cloud_ids (pcs ! i) \<union> A"
  shows "(\<Union>pc\<in>set (pcs[i := pc']). cloud_ids pc) \<subseteq> (\<Union>pc\<in>set pcs. cloud_ids pc) \<union> A"
proof
  fix k assume "k \<in> (\<Union>pc\<in>set (pcs[i := pc']). cloud_ids pc)"
  then obtain pc where pc: "pc \<in> set (pcs[i := pc'])" and k: "k \<in> cloud_ids pc" by blast
  from pc set_update_subset_insert [of pcs i pc'] have "pc = pc' \<or> pc \<in> set pcs" by blast
  then show "k \<in> (\<Union>pc\<in>set pcs. cloud_ids pc) \<union> A"
  proof
    assume "pc = pc'"
    with k assms(2) have "k \<in> cloud_ids (pcs ! i) \<or> k \<in> A" by blast
    with assms(1) show ?thesis using nth_mem [of i pcs] by blast
  next
    assume "pc \<in> set pcs"
    with k show ?thesis by blast
  qed
qed

lemma countVisible_recorded:
  assumes "i < length (pointClouds s)"
  shows "recorded_ids (countVisible i n s) \<subseteq> recorded_ids s"
proof -
  let ?pc = "(pointClouds s ! i)
      \<lparr>pc_numVisiblePoints := pc_numVisiblePoints (pointClouds s ! i) + numPoints n\<rparr>"
  have "cloud_ids ?pc \<subseteq> cloud_ids (pointClouds s ! i) \<union> {}"
    by (simp add: cloud_ids_def)
  from clouds_update_ids [OF assms this] show ?thesis
    by (auto simp: recorded_ids_def countVisible_def)
qed

lemma toTreeNode_same:
  "node_id (toTreeNode n) = node_id n" "children (toTreeNode n) = children n"
  "node_id (geometryNode n) = node_id n"
  by (simp_all add: toTreeNode_def geometryNode_def)

lemma loadOrPromote_recorded:
  assumes lp: "loadOrPromote C x i n s = (r, s')" and i: "i < length (pointClouds s)"
  shows "recorded_ids s' \<subseteq> recorded_ids s \<union> {node_id n}"
    and "length (pointClouds s') = length (pointClouds s)"
    and "nodeLoadFailed s \<Longrightarrow> nodeLoadFailed s'"
    and "r = Some n' \<Longrightarrow> node_id n' = node_id n \<and> children n' = children n"
proof -
  let ?g = "isGeometryNode n \<and> (case parent x of None \<Rightarrow> True | Some p \<Rightarrow> isTreeNode p)"
  let ?pc = "(pointClouds s ! i)\<lparr>visibleGeometry := visibleGeometry (pointClouds s ! i) @ [n]\<rparr>"
  let ?s2 = "s\<lparr>exceededMaxLoadsToGPU :=
                (if loaded n \<and> loadedToGPUThisFrame s \<ge> MAX_LOADS_TO_GPU C then True
                 else exceededMaxLoadsToGPU s),
              unloadedGeometry := unloadedGeometry s @ [n],
              pointClouds := (pointClouds s)[i := ?pc]\<rparr>"
  have "cloud_ids ?pc \<subseteq> cloud_ids (pointClouds s ! i) \<union> {node_id n}"
    by (auto simp: cloud_ids_def)
  from clouds_update_ids [OF i this]
  have r2: "recorded_ids ?s2 \<subseteq> recorded_ids s \<union> {node_id n}"
    by (auto simp: recorded_ids_def)
  consider (other) "\<not> ?g" | (promote) "?g" "loaded n \<and> loadedToGPUThisFrame s < MAX_LOADS_TO_GPU C"
    | (request) "?g" "\<not> (loaded n \<and> loadedToGPUThisFrame s < MAX_LOADS_TO_GPU C)" "\<not> failed n"
    | (failed) "?g" "\<not> (loaded n \<and> loadedToGPUThisFrame s < MAX_LOADS_TO_GPU C)" "failed n"
    by blast
  then have "(r = Some n \<and> s' = s)
      \<or> (r = Some (toTreeNode n) \<and> s' = s\<lparr>loadedToGPUThisFrame := loadedToGPUThisFrame s + 1\<rparr>)
      \<or> (r = Some n \<and> s' = ?s2)
      \<or> (r = None \<and> s' = s\<lparr>nodeLoadFailed := True\<rparr>)"
  proof cases
    case other
    with lp show ?thesis by (simp add: loadOrPromote_def)
  next
    case promote
    with lp show ?thesis by (simp add: loadOrPromote_def)
  next
    case request
    with lp show ?thesis by (simp add: loadOrPromote_def)
  next
    case failed
    with lp show ?thesis by (simp add: loadOrPromote_def)
  qed
  then consider "r = Some n" "s' = s"
    | "r = Some (toTreeNode n)" "s' = s\<lparr>loadedToGPUThisFrame := loadedToGPUThisFrame s + 1\<rparr>"
    | "r = Some n" "s' = ?s2" | "r = None" "s' = s\<lparr>nodeLoadFailed := True\<rparr>"
    by blast
  note cs = this
  from cs show "recorded_ids s' \<subseteq> recorded_ids s \<union> {node_id n}"
  proof cases
    case 3
    with r2 show ?thesis by simp
  qed (auto simp: recorded_ids_def)
  from cs show "length (pointClouds s') = length (pointClouds s)"
    by cases simp_all
  from cs show "nodeLoadFailed s \<Longrightarrow> nodeLoadFailed s'"
    by cases simp_all
  from cs show "r = Some n' \<Longrightarrow> node_id n' = node_id n \<and> children n' = children n"
    by cases (auto simp: toTreeNode_same)
qed

lemma recorded_ids_clouds:
  assumes "visibleNodes s' = visibleNodes s @ vs" "unloadedGeometry s' = unloadedGeometry s"
    and "pointClouds s' = (pointClouds s)[i := pc']" and "i < length (pointClouds s)"
    and "cloud_ids pc' \<subseteq> cloud_ids (pointClouds s ! i) \<union> A" and "node_id ` set vs \<subseteq> A"
  shows "recorded_ids s' \<subseteq> recorded_ids s \<union> A"
proof -
  from clouds_update_ids [OF assms(4,5)]
  have "(\<Union>pc\<in>set (pointClouds s'). cloud_ids pc)
          \<subseteq> (\<Union>pc\<in>set (pointClouds s). cloud_ids pc) \<union> A"
    by (simp add: assms(3))
  moreover have "node_id ` set (visibleNodes s') \<subseteq> node_id ` set (visibleNodes s) \<union> A"
    using assms(6) by (simp add: assms(1) image_Un) blast
  ultimately show ?thesis
    unfolding recorded_ids_def assms(2) by blast
qed

lemma updateTreeNodeVisibility_recorded:
  assumes i: "i < length (pointClouds s)"
  shows "recorded_ids (updateTreeNodeVisibility i n s) \<subseteq> recorded_ids s \<union> {node_id n}"
proof (rule recorded_ids_clouds [where vs = "[n]" and i = i, OF _ _ _ i])
  show "cloud_ids ((pointClouds s ! i)\<lparr>pc_visibleNodes := pc_visibleNodes (pointClouds s ! i) @ [n]\<rparr>)
          \<subseteq> cloud_ids (pointClouds s ! i) \<union> {node_id n}"
    by (auto simp: cloud_ids_def)
qed (simp_all add: updateTreeNodeVisibility_def)

lemma showTreeNode_recorded:
  assumes i: "i < length (pointClouds s)"
  shows "recorded_ids (showTreeNode i n s) \<subseteq> recorded_ids s \<union> {node_id n}"
    and "nodeLoadFailed (showTreeNode i n s) = nodeLoadFailed s"
proof -
  show "nodeLoadFailed (showTreeNode i n s) = nodeLoadFailed s"
    by (simp add: showTreeNode_def updateTreeNodeVisibility_def Let_def)
  show "recorded_ids (showTreeNode i n s) \<subseteq> recorded_ids s \<union> {node_id n}"
  proof (cases "isTreeNode n")
    case False
    then show ?thesis by (auto simp: showTreeNode_def)
  next
    case True
    let ?s1 = "updateTreeNodeVisibility i n s"
    let ?pc2 = "(pointClouds ?s1 ! i)
        \<lparr>visibleGeometry := visibleGeometry (pointClouds ?s1 ! i) @ [geometryNode n]\<rparr>"
    let ?s2 = "?s1\<lparr>pointClouds := (pointClouds ?s1)[i := ?pc2]\<rparr>"
    have i1: "i < length (pointClouds ?s1)"
      using i by (simp add: updateTreeNodeVisibility_def)
    have "recorded_ids ?s2 \<subseteq> recorded_ids ?s1 \<union> {node_id n}"
    proof (rule recorded_ids_clouds [where vs = "[]" and i = i, OF _ _ _ i1])
      show "cloud_ids ?pc2 \<subseteq> cloud_ids (pointClouds ?s1 ! i) \<union> {node_id n}"
        by (auto simp: cloud_ids_def toTreeNode_same)
    qed simp_all
    with updateTreeNodeVisibility_recorded [OF i, of n]
    have "recorded_ids ?s2 \<subseteq> recorded_ids s \<union> {node_id n}" by blast
    moreover have "showTreeNode i n s = ?s2"
      using True by (simp add: showTreeNode_def Let_def)
    ultimately show ?thesis by simp
  qed
qed

lemma updateChildVisibility_nodes:
  "updateChildVisibility L x q pc n cp cam hh cs = Inr q' \<Longrightarrow>
     qnode ` set q' \<subseteq> qnode ` set q \<union> {c. Some c \<in> set cs}"
proof (induction cs arbitrary: q)
  case Nil
  then show ?case by simp
next
  case (Cons c cs)
  show ?case
  proof (cases c)
    case None
    with Cons.prems have "updateChildVisibility L x q pc n cp cam hh cs = Inr q'" by simp
    from Cons.IH [OF this] show ?thesis by auto
  next
    case (Some child)
    show ?thesis
    proof (cases "childItem L x pc n cp cam hh child")
      case (Inl e)
      with Some Cons.prems show ?thesis by simp
    next
      case (Inr r)
      show ?thesis
      proof (cases r)
        case None
        with Inr Some Cons.prems
        have "updateChildVisibility L x q pc n cp cam hh cs = Inr q'" by simp
        from Cons.IH [OF this] show ?thesis by auto
      next
        case (Some y)
        with Inr \<open>c = Some child\<close> Cons.prems
        have "updateChildVisibility L x (heap_push q y) pc n cp cam hh cs = Inr q'" by simp
        from Cons.IH [OF this] childItem_node [of L x pc n cp cam hh child y] Inr Some
          \<open>c = Some child\<close>
        show ?thesis by (auto simp: heap_push_def)
      qed
    qed
  qed
qed

lemma child_subtree:
  assumes "Some c \<in> set (children n)"
  shows "subtree_ids c \<subseteq> node_id ` set (descendants n)"
proof -
  from assms have "set (c # descendants c) \<subseteq> set (descendants n)"
    by (subst (2) descendants.simps) (auto intro!: bexI [of _ "Some c"])
  then show ?thesis unfolding subtree_ids_def by blast
qed

lemma descendants_subtree: "node_id ` set (descendants n) \<subseteq> subtree_ids n"
  by (auto simp: subtree_ids_def)

lemma expand_queued_ids:
  assumes "expand C x i n s = Inr s'"
  shows "queued_ids (priorityQueue s') \<subseteq> queued_ids (priorityQueue s) \<union> node_id ` set (descendants n)"
    and "recorded_ids s' = recorded_ids s" and "nodeLoadFailed s' = nodeLoadFailed s"
proof -
  from assms obtain q where
    u: "updateChildVisibility (js C) x (priorityQueue s) (pointClouds s ! i) n
          (if i < length (cameraPositions C) then Some (cameraPositions C ! i) else None)
          (camera C)
          (lit (js C) (1 / 2) * height (renderer C) * pixelRatio (renderer C)) (children n) = Inr q"
    and s': "s' = s\<lparr>priorityQueue := q\<rparr>"
    by (auto simp: expand_def Let_def split: sum.splits)
  from s' show "recorded_ids s' = recorded_ids s" "nodeLoadFailed s' = nodeLoadFailed s"
    by (simp_all add: recorded_ids_def)
  show "queued_ids (priorityQueue s') \<subseteq> queued_ids (priorityQueue s) \<union> node_id ` set (descendants n)"
  proof
    fix k assume "k \<in> queued_ids (priorityQueue s')"
    then obtain y where y: "y \<in> set q" and k: "k \<in> subtree_ids (qnode y)"
      unfolding s' queued_ids_def by auto
    from updateChildVisibility_nodes [OF u] y
    have "qnode y \<in> qnode ` set (priorityQueue s) \<or> Some (qnode y) \<in> set (children n)"
      by blast
    then show "k \<in> queued_ids (priorityQueue s) \<union> node_id ` set (descendants n)"
    proof
      assume "qnode y \<in> qnode ` set (priorityQueue s)"
      with k show ?thesis unfolding queued_ids_def by auto
    next
      assume "Some (qnode y) \<in> set (children n)"
      from child_subtree [OF this] k show ?thesis by blast
    qed
  qed
qed

lemma descendants_same_children: "children n' = children n \<Longrightarrow> descendants n' = descendants n"
  by (subst descendants.simps, subst (2) descendants.simps) simp

lemma heap_pop_set:
  assumes "heap_pop f q0 = Some (x, q)"
  shows "x \<in> set q0" and "set q \<subseteq> set q0"
proof -
  from assms obtain y ys where q0: "q0 = y # ys" and x: "x = least_score f y ys"
    and q: "q = remove1 x q0"
    by (auto simp: heap_pop_def Let_def split: list.splits)
  from x q0 show "x \<in> set q0" using least_score_in [of f y ys] by simp
  from q show "set q \<subseteq> set q0" by (simp add: set_remove1_subset)
qed

lemma visit_provenance:
  assumes v: "visit C x s = Inr r"
  shows "recorded_ids (state_of r) \<union> queued_ids (priorityQueue (state_of r))
           \<subseteq> recorded_ids s \<union> queued_ids (priorityQueue s) \<union> subtree_ids (qnode x)"
    and "nodeLoadFailed s \<Longrightarrow> nodeLoadFailed (state_of r)"
proof -
  let ?i = "pointCloudIndex x" and ?n = "qnode x"
  let ?s0 = "countVisible ?i ?n s"
  let ?U = "recorded_ids s \<union> queued_ids (priorityQueue s) \<union> subtree_ids ?n"
  have idn: "node_id ?n \<in> subtree_ids ?n" by (simp add: subtree_ids_def)
  have "recorded_ids (state_of r) \<union> queued_ids (priorityQueue (state_of r)) \<subseteq> ?U
        \<and> (nodeLoadFailed s \<longrightarrow> nodeLoadFailed (state_of r))"
  proof (cases "numVisiblePoints s + numPoints ?n > budget C")
    case True
    from visit_break [OF True] v have "r = Break s" by simp
    then show ?thesis by (auto simp: state_of_def)
  next
    case False
    have i: "?i < length (pointClouds s)"
    proof (rule ccontr)
      assume "\<not> ?i < length (pointClouds s)"
      then have "visit C x s = Inl TypeError"
        using visit_bad_index [OF False] by simp
      with v show False by simp
    qed
    show ?thesis
    proof (cases "rejected C (pointClouds s ! ?i) ?i ?n")
      case (Inl e)
      from visit_rejected(1) [OF False i Inl] v show ?thesis by simp
    next
      case (Inr rej)
      show ?thesis
      proof (cases rej)
        case True
        from visit_rejected(2) [OF False i] Inr True v have "r = Continue s" by simp
        then show ?thesis by (auto simp: state_of_def)
      next
        case rf: False
        obtain r0 s1 where lp: "loadOrPromote C x ?i ?n ?s0 = (r0, s1)"
          by (cases "loadOrPromote C x ?i ?n ?s0")
        have i0: "?i < length (pointClouds ?s0)"
          using i by (simp add: countVisible_counters)
        have f0: "nodeLoadFailed ?s0 = nodeLoadFailed s" by (simp add: countVisible_def)
        from loadOrPromote_recorded(1) [OF lp i0] countVisible_recorded [OF i, of ?n]
        have rec1: "recorded_ids s1 \<subseteq> recorded_ids s \<union> {node_id ?n}" by blast
        have q1: "priorityQueue s1 = priorityQueue s"
          using loadOrPromote_queue [OF lp] by (simp add: countVisible_queue)
        have i1: "?i < length (pointClouds s1)"
          using loadOrPromote_recorded(2) [OF lp i0] i0 by simp
        have f1: "nodeLoadFailed s \<longrightarrow> nodeLoadFailed s1"
          using loadOrPromote_recorded(3) [OF lp i0] f0 by simp
        from Inr rf have rj: "rejected C (pointClouds s ! ?i) ?i ?n = Inr False" by simp
        note va = visit_accepted [OF False i rj]
        show ?thesis
        proof (cases r0)
          case None
          with va lp v have "r = Continue s1" by simp
          with rec1 q1 f1 idn show ?thesis by (auto simp: state_of_def)
        next
          case (Some n')
          with va lp v obtain s2 where
            e: "expand C x ?i n' (showTreeNode ?i n' s1) = Inr s2" and r: "r = Continue s2"
            by (auto split: sum.splits)
          from loadOrPromote_recorded(4) [OF lp i0 Some]
          have same: "node_id n' = node_id ?n" "children n' = children ?n" by simp_all
          from showTreeNode_recorded(1) [OF i1, of n'] same(1) rec1
          have rec2: "recorded_ids (showTreeNode ?i n' s1) \<subseteq> recorded_ids s \<union> {node_id ?n}"
            by blast
          from expand_queued_ids(1) [OF e] descendants_same_children [OF same(2)]
            descendants_subtree [of ?n] q1
          have q2: "queued_ids (priorityQueue s2) \<subseteq> queued_ids (priorityQueue s) \<union> subtree_ids ?n"
            by (auto simp: showTreeNode_queue)
          from expand_queued_ids(2) [OF e] rec2
          have rec3: "recorded_ids s2 \<subseteq> recorded_ids s \<union> {node_id ?n}" by simp
          from expand_queued_ids(3) [OF e] showTreeNode_recorded(2) [OF i1, of n'] f1
          have f2: "nodeLoadFailed s \<longrightarrow> nodeLoadFailed s2" by simp
          from rec3 q2 f2 idn r show ?thesis by (auto simp: state_of_def)
        qed
      qed
    qed
  qed
  then show "recorded_ids (state_of r) \<union> queued_ids (priorityQueue (state_of r)) \<subseteq> ?U"
    and "nodeLoadFailed s \<Longrightarrow> nodeLoadFailed (state_of r)"
    by simp_all
qed

lemma traverse_provenance:
  "traverse C s = Inr s' \<Longrightarrow>
     recorded_ids s' \<subseteq> recorded_ids s \<union> queued_ids (priorityQueue s)
     \<and> (nodeLoadFailed s \<longrightarrow> nodeLoadFailed s')"
proof (induction C s rule: traverse.induct)
  case (1 C s)
  show ?case
  proof (cases "heap_pop (score (js C)) (priorityQueue s)")
    case None
    with "1.prems" have "s' = s" by (subst (asm) traverse.simps) simp
    then show ?thesis by auto
  next
    case (Some xq)
    obtain x q where xq: "xq = (x, q)" by (cases xq)
    let ?s = "s\<lparr>priorityQueue := q\<rparr>"
    from heap_pop_set [OF Some [unfolded xq]]
    have "queued_ids q \<union> subtree_ids (qnode x) \<subseteq> queued_ids (priorityQueue s)"
      unfolding queued_ids_def by blast
    moreover have "recorded_ids ?s = recorded_ids s" "nodeLoadFailed ?s = nodeLoadFailed s"
      by (simp_all add: recorded_ids_def)
    ultimately have base:
      "recorded_ids ?s \<union> queued_ids (priorityQueue ?s) \<union> subtree_ids (qnode x)
         \<subseteq> recorded_ids s \<union> queued_ids (priorityQueue s)"
      by auto
    show ?thesis
    proof (cases "visit C x ?s")
      case (Inl e)
      with Some xq "1.prems" show ?thesis by (subst (asm) traverse.simps) simp
    next
      case (Inr r)
      from visit_provenance [OF Inr] base
      have k: "recorded_ids (state_of r) \<union> queued_ids (priorityQueue (state_of r))
                 \<subseteq> recorded_ids s \<union> queued_ids (priorityQueue s)"
        "nodeLoadFailed s \<longrightarrow> nodeLoadFailed (state_of r)"
        by auto
      show ?thesis
      proof (cases r)
        case (Break s1)
        with Some xq Inr "1.prems" have "s' = s1"
          by (subst (asm) traverse.simps) simp
        with k Break show ?thesis by (auto simp: state_of_def)
      next
        case (Continue s1)
        with Some xq Inr "1.prems" have t: "traverse C s1 = Inr s'"
          by (subst (asm) traverse.simps) simp
        from "1.IH" [OF Some xq [symmetric] Inr Continue t] k Continue
        show ?thesis by (auto simp: state_of_def)
      qed
    qed
  qed
qed

lemma recorded_idsI:
  "n \<in> set (visibleNodes s) \<Longrightarrow> node_id n \<in> recorded_ids s"
  "n \<in> set (unloadedGeometry s) \<Longrightarrow> node_id n \<in> recorded_ids s"
  "pc \<in> set (pointClouds s) \<Longrightarrow> n \<in> set (pc_visibleNodes pc) \<union> set (visibleGeometry pc)
     \<Longrightarrow> node_id n \<in> recorded_ids s"
  by (auto simp: recorded_ids_def cloud_ids_def)

lemma in_disjoint: "A \<inter> B = {} \<Longrightarrow> k \<in> A \<Longrightarrow> k \<notin> B"
  by blast

text \<open>
  C6 as stated: popping a failed geometry node whose parent is absent would always set
  \<^verbatim>\<open>nodeLoadFailed\<close> and keep the node and its subtree out of the visible nodes. Four frames
  on a failed root with the child C show what the statement leaves out. The tests come
  first: a failed root outside the frustum, and a failed root of 30 points under a budget
  of 20, leave the flag of the frame false. \<^verbatim>\<open>node.loaded\<close> is read before \<^verbatim>\<open>node.failed\<close>: a
  failed root that is loaded is promoted, it and its child are visible, and the flag is
  false. And a descendant that is also the root of another cloud is visible through that
  cloud.
\<close>

theorem failed_node_culled_counterexample:
  "failed nodeF \<and> isGeometryNode nodeF \<and> failed nodeLF \<and> isGeometryNode nodeLF
   \<and> map_sum id (\<lambda>(r, P, pcs). result_nodeLoadFailed r)
       (updateVisibility realJS 2 potree100 [cloudF\<lparr>localFrustum := (\<lambda>b. False)\<rparr>] ortho rend)
       = Inr False
   \<and> map_sum id (\<lambda>(r, P, pcs). result_nodeLoadFailed r)
       (updateVisibility realJS 2 potree20 [cloudF] ortho rend) = Inr False
   \<and> map_sum id (\<lambda>(r, P, pcs). (result_nodeLoadFailed r, map node_id (result_visibleNodes r)))
       (updateVisibility realJS 2 potree100 [cloudLF] ortho rend) = Inr (False, [8, 3])
   \<and> Some nodeC \<in> set (children nodeF)
   \<and> map_sum id (\<lambda>(r, P, pcs). (result_nodeLoadFailed r, map node_id (result_visibleNodes r)))
       (updateVisibility realJS 2 potree100 [cloudF, cloudC] ortho rend)
       = Inr (True, [node_id nodeC])"
proof -
  have a: "map_sum id (\<lambda>(r, P, pcs). result_nodeLoadFailed r)
       (updateVisibility realJS 2 potree100 [cloudF\<lparr>localFrustum := (\<lambda>b. False)\<rparr>] ortho rend)
       = Inr False"
    apply (simp add: frame_eval)
    apply (subst traverse.simps)
    apply (simp add: frame_eval)
    apply (subst traverse.simps)
    apply (simp add: frame_eval)
    done
  have b: "map_sum id (\<lambda>(r, P, pcs). result_nodeLoadFailed r)
       (updateVisibility realJS 2 potree20 [cloudF] ortho rend) = Inr False"
    apply (simp add: frame_eval)
    apply (subst traverse.simps)
    apply (simp add: frame_eval)
    done
  have c: "map_sum id (\<lambda>(r, P, pcs). (result_nodeLoadFailed r, map node_id (result_visibleNodes r)))
       (updateVisibility realJS 2 potree100 [cloudLF] ortho rend) = Inr (False, [8, 3])"
    apply (simp add: frame_eval)
    apply (subst traverse.simps)
    apply (simp add: frame_eval lru_eval)
    apply (subst traverse.simps)
    apply (simp add: frame_eval lru_eval)
    apply (subst traverse.simps)
    apply (simp add: frame_eval lru_eval)
    done
  have d: "map_sum id (\<lambda>(r, P, pcs). (result_nodeLoadFailed r, map node_id (result_visibleNodes r)))
       (updateVisibility realJS 2 potree100 [cloudF, cloudC] ortho rend)
       = Inr (True, [node_id nodeC])"
    apply (simp add: frame_eval)
    apply (subst traverse.simps)
    apply (simp add: frame_eval lru_eval)
    apply (subst traverse.simps)
    apply (simp add: frame_eval lru_eval)
    apply (subst traverse.simps)
    apply (simp add: frame_eval lru_eval)
    done
  have e: "failed nodeF" "isGeometryNode nodeF" "failed nodeLF" "isGeometryNode nodeLF"
    "Some nodeC \<in> set (children nodeF)"
    by (simp_all add: frame_eval)
  show ?thesis
    by (intro conjI) (rule a b c d e)+
qed

text \<open>
  C6 as amended. In a frame that returns, let the loop pop a geometry node with
  \<^verbatim>\<open>failed\<close> set, whose parent is absent or a tree node, which passes the budget, level,
  frustum and clip tests and is not promoted (it is not loaded, or the promotions of this
  frame have reached \<^verbatim>\<open>MAX_LOADS_TO_GPU\<close>), and let the node and its descendants be in the
  frame only here: their ids are those of no other queued node or descendant of one, and
  of no node recorded so far. Then the pass ends with \<^verbatim>\<open>continue\<close>; none of the children is
  pushed (the queue is what the pop left); the visible nodes, the visible geometry, the
  list of nodes to load and the cache are as before the pass; and in the result of the
  frame \<^verbatim>\<open>nodeLoadFailed\<close> is true, and neither the node nor any of its descendants is among
  the visible nodes, among the nodes whose load is started, or among the visible nodes
  and the visible geometry of any cloud.
\<close>

theorem failed_node_is_skipped:
  fixes L :: "('v, 'r::{plus,minus,times,inverse,ord}) JS"
  assumes frame: "updateVisibility L m P pcs cam rnd = Inr (r, P', pcs')"
    and reach: "reached (frame_ctx L m P pcs cam rnd) (frame_start L P pcs) s"
    and pop: "heap_pop (score L) (priorityQueue s) = Some (x, q)"
    and budget: "\<not> numVisiblePoints s + numPoints (qnode x) > get_pointBudget P"
    and tests: "rejected (frame_ctx L m P pcs cam rnd) (pointClouds s ! pointCloudIndex x)
                  (pointCloudIndex x) (qnode x) = Inr False"
    and geo: "isGeometryNode (qnode x)"
    and par: "case parent x of None \<Rightarrow> True | Some p \<Rightarrow> isTreeNode p"
    and failed: "failed (qnode x)"
    and notprom: "\<not> (loaded (qnode x) \<and> loadedToGPUThisFrame s < m)"
    and unique: "subtree_ids (qnode x) \<inter> (recorded_ids s \<union> queued_ids q) = {}"
  shows "\<exists>s1 s'. visit (frame_ctx L m P pcs cam rnd) x (s\<lparr>priorityQueue := q\<rparr>) = Inr (Continue s1)
           \<and> priorityQueue s1 = q
           \<and> visibleNodes s1 = visibleNodes s
           \<and> map pc_visibleNodes (pointClouds s1) = map pc_visibleNodes (pointClouds s)
           \<and> map visibleGeometry (pointClouds s1) = map visibleGeometry (pointClouds s)
           \<and> unloadedGeometry s1 = unloadedGeometry s
           \<and> frame_lru s1 = frame_lru s
           \<and> nodeLoadFailed s1
           \<and> traverse (frame_ctx L m P pcs cam rnd) s1 = Inr s'
           \<and> recorded_ids s' \<inter> subtree_ids (qnode x) = {}
           \<and> result_nodeLoadFailed r
           \<and> (\<forall>n\<in>set (result_visibleNodes r) \<union> set (result_nodeLoadPromises r).
                  node_id n \<notin> subtree_ids (qnode x))
           \<and> (\<forall>pc\<in>set pcs'. \<forall>n\<in>set (pc_visibleNodes pc) \<union> set (visibleGeometry pc).
                  node_id n \<notin> subtree_ids (qnode x))"
proof -
  let ?C = "frame_ctx L m P pcs cam rnd"
  let ?s = "s\<lparr>priorityQueue := q\<rparr>"
  let ?i = "pointCloudIndex x" and ?n = "qnode x"
  let ?s1 = "(countVisible ?i ?n ?s)\<lparr>nodeLoadFailed := True\<rparr>"
  have C: "js ?C = L" "budget ?C = get_pointBudget P" "MAX_LOADS_TO_GPU ?C = m"
    by (simp_all add: frame_ctx_def)
  from pop have pop': "heap_pop (score (js ?C)) (priorityQueue s) = Some (x, q)"
    by (simp add: C)
  from updateVisibility_traverse [OF frame] obtain s' where
    t0: "traverse ?C (frame_start L P pcs) = Inr s'"
    and res: "result_visibleNodes r = visibleNodes s'" "result_nodeLoadFailed r = nodeLoadFailed s'"
      "set (result_nodeLoadPromises r) \<subseteq> set (unloadedGeometry s')" "pcs' = pointClouds s'"
    by blast
  from reached_traverse [OF reach] t0 have t: "traverse ?C s = Inr s'" by simp
  have idx: "pointCloudIndex x < length (pointClouds s)"
  proof (rule ccontr)
    assume "\<not> pointCloudIndex x < length (pointClouds s)"
    with budget have "visit ?C x ?s = Inl TypeError"
      by (intro visit_bad_index) (simp_all add: C)
    with pop' have "traverse ?C s = Inl TypeError"
      by (subst traverse.simps) simp
    with t show False by simp
  qed
  have v: "visit ?C x ?s = Inr (Continue ?s1)"
    by (rule failed_node_continue) (use budget idx tests geo par failed notprom in \<open>simp_all add: C\<close>)
  from t traverse_pass [OF pop' v] have t1: "traverse ?C ?s1 = Inr s'" by simp
  have rec1: "recorded_ids ?s1 \<subseteq> recorded_ids s"
    using countVisible_recorded [of ?i ?s ?n] idx by (simp add: recorded_ids_def)
  have q1: "priorityQueue ?s1 = q" by (simp add: countVisible_def)
  from traverse_provenance [OF t1] rec1 q1
  have "recorded_ids s' \<subseteq> recorded_ids s \<union> queued_ids q" "nodeLoadFailed s'"
    by auto
  with unique have ex: "recorded_ids s' \<inter> subtree_ids ?n = {}" and fl: "nodeLoadFailed s'"
    by auto
  have m1: "map pc_visibleNodes (pointClouds ?s1) = map pc_visibleNodes (pointClouds s)"
    "map visibleGeometry (pointClouds ?s1) = map visibleGeometry (pointClouds s)"
    using idx by (simp_all add: countVisible_def map_update map_update_same)
  have rest: "visibleNodes ?s1 = visibleNodes s" "unloadedGeometry ?s1 = unloadedGeometry s"
    "frame_lru ?s1 = frame_lru s" "nodeLoadFailed ?s1"
    by (simp_all add: countVisible_def)
  have r1: "\<forall>n\<in>set (result_visibleNodes r) \<union> set (result_nodeLoadPromises r).
                  node_id n \<notin> subtree_ids ?n"
  proof
    fix n assume "n \<in> set (result_visibleNodes r) \<union> set (result_nodeLoadPromises r)"
    then have "n \<in> set (visibleNodes s') \<or> n \<in> set (unloadedGeometry s')"
      using res(1,3) by auto
    then have "node_id n \<in> recorded_ids s'"
      by (rule disjE) (rule recorded_idsI(1), assumption, rule recorded_idsI(2), assumption)
    with ex show "node_id n \<notin> subtree_ids ?n" by (rule in_disjoint)
  qed
  have r2: "\<forall>pc\<in>set pcs'. \<forall>n\<in>set (pc_visibleNodes pc) \<union> set (visibleGeometry pc).
                  node_id n \<notin> subtree_ids ?n"
  proof (intro ballI)
    fix pc n assume pc: "pc \<in> set pcs'"
      and n: "n \<in> set (pc_visibleNodes pc) \<union> set (visibleGeometry pc)"
    from pc res(4) have "pc \<in> set (pointClouds s')" by simp
    from recorded_idsI(3) [OF this n] have "node_id n \<in> recorded_ids s'" .
    with ex show "node_id n \<notin> subtree_ids ?n" by (rule in_disjoint)
  qed
  from res(2) fl have fr: "result_nodeLoadFailed r" by simp
  show ?thesis
    by (intro exI [of _ ?s1] exI [of _ s'] conjI)
       (rule v q1 m1 rest t1 ex fr r1 r2)+
qed

theorem failed_node_is_skipped_witness:
  "\<exists>r P' pcs'.
     updateVisibility realJS 2 potree100 [cloudF, cloudB] ortho rend = Inr (r, P', pcs')
     \<and> reached (frame_ctx realJS 2 potree100 [cloudF, cloudB] ortho rend)
          (frame_start realJS potree100 [cloudF, cloudB])
          (frame_start realJS potree100 [cloudF, cloudB])
     \<and> heap_pop (score realJS) (priorityQueue (frame_start realJS potree100 [cloudF, cloudB]))
          = Some (itemF, [itemB])
     \<and> \<not> numVisiblePoints (frame_start realJS potree100 [cloudF, cloudB]) + numPoints (qnode itemF)
            > get_pointBudget potree100
     \<and> rejected (frame_ctx realJS 2 potree100 [cloudF, cloudB] ortho rend)
          (pointClouds (frame_start realJS potree100 [cloudF, cloudB]) ! pointCloudIndex itemF)
          (pointCloudIndex itemF) (qnode itemF) = Inr False
     \<and> isGeometryNode (qnode itemF)
     \<and> (case parent itemF of None \<Rightarrow> True | Some p \<Rightarrow> isTreeNode p)
     \<and> failed (qnode itemF)
     \<and> \<not> (loaded (qnode itemF)
            \<and> loadedToGPUThisFrame (frame_start realJS potree100 [cloudF, cloudB]) < 2)
     \<and> subtree_ids (qnode itemF)
          \<inter> (recorded_ids (frame_start realJS potree100 [cloudF, cloudB]) \<union> queued_ids [itemB]) = {}
     \<and> result_nodeLoadFailed r
     \<and> map node_id (result_visibleNodes r) = [2]
     \<and> (\<forall>n\<in>set (result_visibleNodes r) \<union> set (result_nodeLoadPromises r).
            node_id n \<notin> subtree_ids (qnode itemF))"
proof -
  let ?pcs = "[cloudF, cloudB]"
  let ?C = "frame_ctx realJS 2 potree100 ?pcs ortho rend"
  let ?S = "frame_start realJS potree100 ?pcs"
  have ev: "map_sum id (\<lambda>(r, P, pcs). map node_id (result_visibleNodes r))
       (updateVisibility realJS 2 potree100 ?pcs ortho rend) = Inr [2]"
    apply (simp add: frame_eval)
    apply (subst traverse.simps)
    apply (simp add: frame_eval lru_eval)
    apply (subst traverse.simps)
    apply (simp add: frame_eval lru_eval)
    apply (subst traverse.simps)
    apply (simp add: frame_eval lru_eval)
    done
  then obtain r P' pcs' where
    fr: "updateVisibility realJS 2 potree100 ?pcs ortho rend = Inr (r, P', pcs')"
    and vis: "map node_id (result_visibleNodes r) = [2]"
    by (cases "updateVisibility realJS 2 potree100 ?pcs ortho rend") auto
  have h1: "reached ?C ?S ?S" by (rule reached.start)
  have h2: "heap_pop (score realJS) (priorityQueue ?S) = Some (itemF, [itemB])"
    by (simp add: frame_start_def frame_eval)
  have h3: "\<not> numVisiblePoints ?S + numPoints (qnode itemF) > get_pointBudget potree100"
    by (simp add: frame_start_def frame_eval)
  have h5: "rejected ?C (pointClouds ?S ! pointCloudIndex itemF) (pointCloudIndex itemF)
              (qnode itemF) = Inr False"
    by (simp add: frame_start_def frame_ctx_def frame_eval)
  have h6: "isGeometryNode (qnode itemF)"
    "case parent itemF of None \<Rightarrow> True | Some p \<Rightarrow> isTreeNode p"
    "failed (qnode itemF)"
    by (simp_all add: frame_eval)
  have h7: "\<not> (loaded (qnode itemF) \<and> loadedToGPUThisFrame ?S < 2)"
    by (simp add: frame_eval)
  have h8: "subtree_ids (qnode itemF) \<inter> (recorded_ids ?S \<union> queued_ids [itemB]) = {}"
    by (simp add: frame_start_def frame_eval subtree_ids_def recorded_ids_def cloud_ids_def
        queued_ids_def descendants_children descendants_of_children_simps)
  from failed_node_is_skipped [OF fr h1 h2 h3 h5 h6 h7 h8]
  have c1: "result_nodeLoadFailed r"
    and c2: "\<forall>n\<in>set (result_visibleNodes r) \<union> set (result_nodeLoadPromises r).
            node_id n \<notin> subtree_ids (qnode itemF)"
    by blast+
  show ?thesis
    by (intro exI [of _ r] exI [of _ P'] exI [of _ pcs'] conjI)
       (rule fr h1 h2 h3 h5 h6 h7 h8 c1 vis c2)+
qed

end
